theory Spec2Isabelle
  imports Complex_Main "HOL-Library.Word" "HOL-Library.Sublist"
begin

unbundle bit_operations_syntax

section \<open>Strings\<close>

text \<open>
  File names, paths and queries are Python \<open>str\<close> values. They are modelled as
  \<^typ>\<open>string\<close> with one \<^typ>\<open>char\<close> per character and are read as ASCII text:
  \<open>str.lower\<close> maps \<open>A\<close>..\<open>Z\<close> to \<open>a\<close>..\<open>z\<close> and leaves every other character alone,
  \<open>str.strip\<close> removes the ASCII characters for which \<open>str.isspace\<close> holds
  (codes 9 to 13, 28 to 31 and 32).
\<close>

definition lower_char :: "char \<Rightarrow> char" where
  "lower_char c =
     (let n = (of_char c :: nat) in if 65 \<le> n \<and> n \<le> 90 then char_of (n + 32) else c)"

definition lower :: "string \<Rightarrow> string" where
  "lower s = map lower_char s"

definition isspace :: "char \<Rightarrow> bool" where
  "isspace c = (let n = (of_char c :: nat) in (9 \<le> n \<and> n \<le> 13) \<or> (28 \<le> n \<and> n \<le> 32))"

definition rstrip :: "(char \<Rightarrow> bool) \<Rightarrow> string \<Rightarrow> string" where
  "rstrip P s = rev (dropWhile P (rev s))"

definition strip :: "string \<Rightarrow> string" where
  "strip s = rstrip isspace (dropWhile isspace s)"

text \<open>\<open>s.rstrip('/')\<close>\<close>

definition rstrip_slash :: "string \<Rightarrow> string" where
  "rstrip_slash s = rstrip (\<lambda>c. c = CHR ''/'') s"

text \<open>\<open>os.path.basename\<close> on a POSIX path: what follows the last \<open>/\<close>.\<close>

definition basename :: "string \<Rightarrow> string" where
  "basename p = rev (takeWhile (\<lambda>c. c \<noteq> CHR ''/'') (rev p))"

section \<open>The download worker: \<open>download_file\<close>\<close>

text \<open>
  \<open>show_notification(message, notification_type)\<close> is called with one of the three type
  strings \<open>"error"\<close>, \<open>"info"\<close>, \<open>"success"\<close>.
\<close>

datatype ntype = Error | Info | Success

type_synonym bytes = "8 word list"

text \<open>
  The module globals written by \<open>download_file\<close>: the flags \<open>downloading\<close> and
  \<open>stop_download\<close> and the telemetry, which are Python floats and are modelled as reals.
  \<open>notified\<close> is the sequence of \<open>show_notification\<close> calls made so far, oldest first (the
  notification list itself, with its clock and timers, is modelled in its own section).
\<close>

record globals =
  downloading :: bool
  download_progress :: real
  download_speed :: real
  download_eta :: real
  stop_download :: bool
  notified :: "(ntype \<times> string) list"

text \<open>
  What one invocation of \<open>download_file\<close> works on: the globals, and \<open>local_file\<close>, the
  content of the file at \<open>local_path\<close>, \<open>None\<close> when no file exists there. Sizes and byte
  counts are natural numbers (an SFTP size is an unsigned integer, \<open>len(data)\<close> is
  non-negative).
\<close>

record world = globals +
  local_file :: "bytes option"

text \<open>
  Everything the worker reads from outside during one invocation. An exception is
  represented by its message. \<open>fg_write k\<close> is what the foreground thread did to the shared
  flag \<open>stop_download\<close> between the worker's previous read of the flag and its read at the
  top of loop iteration \<open>k\<close> (\<open>Some True\<close>: a cancel command in \<open>download_screen\<close>;
  \<open>Some False\<close>: a reset; \<open>None\<close>: nothing); \<open>fg_final\<close> is the same for the read in the
  completion test after the loop. \<open>read_res k\<close> is the result of the \<open>k\<close>-th
  \<open>remote_f.read(block_size)\<close> (an empty block is end of file), \<open>write_err k\<close> the
  outcome of the \<open>k\<close>-th \<open>f.write\<close>, \<open>clock 0\<close> the reading of \<open>time.time()\<close> before the
  loop and \<open>clock (k + 1)\<close> the reading after block \<open>k\<close>. \<open>close_err\<close> is an error raised
  when the \<open>with\<close> block closes the two files.
\<close>

record dl_env =
  makedirs_err :: "string option"
  stat_res :: "string + nat"
  open_local_err :: "string option"
  open_remote_err :: "string option"
  fg_write :: "nat \<Rightarrow> bool option"
  read_res :: "nat \<Rightarrow> string + bytes"
  write_err :: "nat \<Rightarrow> string option"
  clock :: "nat \<Rightarrow> real"
  close_err :: "string option"
  fg_final :: "bool option"
  remove_err :: "string option"

text \<open>The locals of \<open>download_file\<close> when it returns, and the exception its \<open>try\<close> caught.\<close>

record dl_result =
  final :: world
  raised :: "string option"
  success :: bool
  st_size :: nat
  read_bytes :: nat

text \<open>
  A call \<open>show_notification(msg, t)\<close>, recorded; and a read of \<open>stop_download\<close> by the
  worker, before which the foreground may have written the flag.
\<close>

definition notify :: "string \<Rightarrow> ntype \<Rightarrow> 'a globals_scheme \<Rightarrow> 'a globals_scheme" where
  "notify msg t w = w\<lparr>notified := notified w @ [(t, msg)]\<rparr>"

definition observe_flag :: "bool option \<Rightarrow> world \<Rightarrow> world" where
  "observe_flag fg w = (case fg of None \<Rightarrow> w | Some b \<Rightarrow> w\<lparr>stop_download := b\<rparr>)"

text \<open>
  The \<open>while True\<close> loop. It need not end (a remote file that never reaches end of file),
  so it runs on fuel: one unit per iteration, \<open>None\<close> when the fuel is used up. The result
  is the world, \<open>read_bytes\<close>, and the exception raised inside the loop, if any.
\<close>

fun read_loop ::
  "nat \<Rightarrow> dl_env \<Rightarrow> nat \<Rightarrow> nat \<Rightarrow> world \<Rightarrow> nat \<Rightarrow> real \<Rightarrow> nat \<Rightarrow> (world \<times> nat \<times> string option) option"
where
  "read_loop 0 env sz k w rb last_time last_bytes = None"
| "read_loop (Suc fuel) env sz k w rb last_time last_bytes =
     (let w1 = observe_flag (fg_write env k) w in
      if stop_download w1 then Some (notify ''Download aborted by user'' Info w1, rb, None)
      else
        (case read_res env k of
           Inl e \<Rightarrow> Some (w1, rb, Some e)
         | Inr data \<Rightarrow>
             if data = [] then Some (w1, rb, None)
             else
               (case write_err env k of
                  Some e \<Rightarrow> Some (w1, rb, Some e)
                | None \<Rightarrow>
                    (let w2 = w1\<lparr>local_file := map_option (\<lambda>c. c @ data) (local_file w1)\<rparr>;
                         rb' = rb + length data;
                         w3 = w2\<lparr>download_progress := real rb' / real (max 1 sz)\<rparr>;
                         now = clock env (Suc k);
                         elapsed = now - last_time
                     in if elapsed \<ge> 1 / 2 then
                          (let speed = real_of_int (int rb' - int last_bytes) / elapsed / (1024 * 1024);
                               remaining_bytes = max 0 (int sz - int rb');
                               eta = real_of_int remaining_bytes / (max speed (1 / 1000000) * 1024 * 1024)
                           in read_loop fuel env sz (Suc k)
                                (w3\<lparr>download_speed := speed, download_eta := eta\<rparr>) rb' now rb')
                        else read_loop fuel env sz (Suc k) w3 rb' last_time last_bytes))))"

text \<open>
  The two cleanup blocks: \<open>if os.path.exists(local_path): os.remove(local_path)\<close>, with the
  notification that follows, and the inner \<open>except\<close> that only reports a failed removal.
\<close>

definition cleanup :: "dl_env \<Rightarrow> string \<Rightarrow> world \<Rightarrow> world" where
  "cleanup env removed_msg w =
     (if local_file w \<noteq> None then
        (case remove_err env of
           None \<Rightarrow> notify removed_msg Info (w\<lparr>local_file := None\<rparr>)
         | Some rm_err \<Rightarrow> notify (''Failed to remove partial file: '' @ rm_err) Error w)
      else w)"

text \<open>The \<open>except Exception as e\<close> handler of \<open>download_file\<close>.\<close>

definition on_exception :: "dl_env \<Rightarrow> string \<Rightarrow> nat \<Rightarrow> nat \<Rightarrow> world \<Rightarrow> dl_result" where
  "on_exception env e sz rb w =
     \<lparr>final = cleanup env ''Removed partial file after error'' (notify (''Download failed: '' @ e) Error w),
      raised = Some e, success = False, st_size = sz, read_bytes = rb\<rparr>"

text \<open>
  The completion test and what follows it inside the \<open>try\<close> block, after the \<open>with\<close> block
  has closed both files: \<open>sz\<close> and \<open>rb\<close> are the locals \<open>size\<close> and \<open>read_bytes\<close>.
\<close>

definition complete :: "dl_env \<Rightarrow> string \<Rightarrow> nat \<Rightarrow> nat \<Rightarrow> world \<Rightarrow> dl_result" where
  "complete env local_path sz rb w =
     (let ok = (\<not> stop_download w \<and> (sz = 0 \<or> rb \<ge> sz))
      in \<lparr>final =
            (if ok then notify (''Download complete: '' @ basename local_path) Success w
             else cleanup env ''Removed partial file'' w),
          raised = None, success = ok, st_size = sz, read_bytes = rb\<rparr>)"

text \<open>The first five assignments of \<open>download_file\<close>.\<close>

definition download_file_begin :: "'a globals_scheme \<Rightarrow> 'a globals_scheme" where
  "download_file_begin w =
     w\<lparr>downloading := True, stop_download := False, download_progress := 0,
       download_speed := 0, download_eta := 0\<rparr>"

text \<open>The \<open>try\<close> statement of \<open>download_file\<close>, from \<open>os.makedirs\<close> to the end of both handlers.\<close>

definition download_file_try :: "nat \<Rightarrow> dl_env \<Rightarrow> string \<Rightarrow> world \<Rightarrow> dl_result option" where
  "download_file_try fuel env local_path w =
     (case makedirs_err env of
        Some e \<Rightarrow> Some (on_exception env e 0 0 w)
      | None \<Rightarrow>
     (case stat_res env of
        Inl e \<Rightarrow> Some (on_exception env e 0 0 w)
      | Inr sz \<Rightarrow>
     (case open_local_err env of
        Some e \<Rightarrow> Some (on_exception env e sz 0 w)
      | None \<Rightarrow>
     (let w1 = w\<lparr>local_file := Some []\<rparr> in
      case open_remote_err env of
        Some e \<Rightarrow> Some (on_exception env e sz 0 w1)
      | None \<Rightarrow>
     (case read_loop fuel env sz 0 w1 0 (clock env 0) 0 of
        None \<Rightarrow> None
      | Some (w2, rb, Some e) \<Rightarrow> Some (on_exception env e sz rb w2)
      | Some (w2, rb, None) \<Rightarrow>
     (case close_err env of
        Some e \<Rightarrow> Some (on_exception env e sz rb w2)
      | None \<Rightarrow> Some (complete env local_path sz rb (observe_flag (fg_final env) w2))))))))"

definition download_file :: "nat \<Rightarrow> dl_env \<Rightarrow> string \<Rightarrow> string \<Rightarrow> world \<Rightarrow> dl_result option" where
  "download_file fuel env remote_path local_path w =
     map_option (\<lambda>r. r\<lparr>final := (final r)\<lparr>downloading := False\<rparr>\<rparr>)
       (download_file_try fuel env local_path (download_file_begin w))"

subsection \<open>What the environment makes of one run\<close>

text \<open>
  The notions in which the properties of \<open>download_file\<close> are stated. They are read off the
  environment alone, not off the worker's locals.

  \<open>iteration env k\<close> is what loop iteration \<open>k\<close> does when it is entered with the flag
  unset: it leaves the loop on the \<open>break\<close> after the abort notification (\<open>Abort\<close>), on the
  \<open>break\<close> at the end of the remote file (\<open>Eof\<close>), by an exception of \<open>read\<close> or \<open>write\<close>
  (\<open>Fault\<close>), or it copies one block and goes round again (\<open>Copy\<close>). \<open>block env k\<close> is
  the data of the \<open>k\<close>-th read, \<open>delivered env n\<close> the bytes of the first \<open>n\<close> reads in
  order. \<open>stops_at env n\<close>: the iterations before \<open>n\<close> all copy their block and iteration
  \<open>n\<close> leaves the loop. \<open>flag_at_test env n\<close> is the value of \<open>stop_download\<close> that the
  completion test reads after the loop was left at iteration \<open>n\<close>: what the foreground wrote
  last, and otherwise what the worker itself saw at iteration \<open>n\<close>. \<open>opened env sz\<close>: the
  directory was made, \<open>stat\<close> gave the size \<open>sz\<close>, and both files were opened.
  \<open>abort_note ns env n\<close> is the notification list \<open>ns\<close> after the loop was left at \<open>n\<close>.
\<close>

datatype exit = Copy | Abort | Eof | Fault string

definition iteration :: "dl_env \<Rightarrow> nat \<Rightarrow> exit" where
  "iteration env k =
     (if fg_write env k = Some True then Abort
      else
        (case read_res env k of
           Inl e \<Rightarrow> Fault e
         | Inr data \<Rightarrow>
             if data = [] then Eof
             else (case write_err env k of Some e \<Rightarrow> Fault e | None \<Rightarrow> Copy)))"






definition abort_note :: "(ntype \<times> string) list \<Rightarrow> dl_env \<Rightarrow> nat \<Rightarrow> (ntype \<times> string) list" where
  "abort_note ns env n =
     (if iteration env n = Abort then ns @ [(Info, ''Download aborted by user'')] else ns)"

subsection \<open>Concrete runs of the worker\<close>

text \<open>
  An idle world, and six environments: a three-byte remote file delivered in one block;
  the same file with the connection lost on the second read; a remote file that delivers
  five bytes although \<open>stat\<close> reported three; the lost connection followed by a failing
  \<open>os.remove\<close>; a remote file of stat size five of which three bytes arrive before the
  end of file; and a remote file of two blocks, for which \<open>stat\<close> reports the size 0, whose
  download is cancelled after the first block, the foreground resetting the flag (as the
  batch loop does once its \<open>join\<close> has timed out) while the worker closes its files. The
  clock advances one second per block.
\<close>

definition w0 :: world where
  "w0 = \<lparr>downloading = False, download_progress = 0, download_speed = 0, download_eta = 0,
         stop_download = False, notified = [], local_file = None\<rparr>"

definition env_ok :: dl_env where
  "env_ok = \<lparr>makedirs_err = None, stat_res = Inr 3, open_local_err = None, open_remote_err = None,
     fg_write = (\<lambda>k. None), read_res = (\<lambda>k. if k = 0 then Inr [1, 2, 3] else Inr []),
     write_err = (\<lambda>k. None), clock = (\<lambda>k. real k), close_err = None, fg_final = None,
     remove_err = None\<rparr>"

definition env_io :: dl_env where
  "env_io = env_ok\<lparr>read_res := (\<lambda>k. if k = 0 then Inr [1, 2, 3] else Inl ''Socket is closed'')\<rparr>"


definition env_rmfail :: dl_env where
  "env_rmfail = env_io\<lparr>remove_err := Some ''Permission denied''\<rparr>"



section \<open>Remote directory walk and search: \<open>sftp_walk\<close>, \<open>search_remote\<close>\<close>

text \<open>
  An entry returned by \<open>sftp.listdir_attr\<close> is read through its \<open>filename\<close> and its
  \<open>st_mode\<close> (a Python integer). The SFTP session is what \<open>listdir_attr\<close> answers for each
  path: the list of entries, or the message of the exception it raises.
\<close>

type_synonym entry = "string \<times> int"

type_synonym sftp = "string \<Rightarrow> string + entry list"

text \<open>\<open>stat.S_IFMT\<close>, \<open>stat.S_ISDIR\<close>, \<open>stat.S_ISLNK\<close>: the masks \<open>0o170000\<close>, \<open>0o040000\<close>, \<open>0o120000\<close>.\<close>

definition S_IFMT :: "int \<Rightarrow> int" where
  "S_IFMT mode = mode AND 61440"

definition S_ISDIR :: "int \<Rightarrow> bool" where
  "S_ISDIR mode \<longleftrightarrow> S_IFMT mode = 16384"

definition S_ISLNK :: "int \<Rightarrow> bool" where
  "S_ISLNK mode \<longleftrightarrow> S_IFMT mode = 40960"

text \<open>
  The loop of \<open>sftp_walk\<close> that sorts the entries into \<open>dirs\<close> and \<open>files\<close>, in listing
  order, skipping symbolic links.
\<close>

fun classify :: "entry list \<Rightarrow> string list \<times> string list" where
  "classify [] = ([], [])"
| "classify ((name, mode) # entries) =
     (let (dirs, files) = classify entries
      in if S_ISLNK mode then (dirs, files)
         else if S_ISDIR mode then (name # dirs, files)
         else (dirs, name # files))"

text \<open>\<open>f"{top.rstrip('/')}/{d}"\<close>\<close>

definition new_top :: "string \<Rightarrow> string \<Rightarrow> string" where
  "new_top top' d = rstrip_slash top' @ ''/'' @ d"

text \<open>
  \<open>sftp_walk\<close> is a generator, consumed by a \<open>for\<close> loop that may leave early. The model
  passes the loop to the generator: \<open>body\<close> is the loop body, run at each \<open>yield\<close> on the
  yielded tuple \<open>(top, dirs, files)\<close> and the loop's state; it answers \<open>Inl\<close> with the new
  state to go on, or \<open>Inr\<close> with a value when the loop is left by \<open>return\<close>, and then the
  generator is not resumed. A failing \<open>listdir_attr\<close> ends that generator without a yield
  (the notification it shows is not recorded here). The recursion follows the remote
  tree, which need not be finite, so it runs on fuel: the nesting depth of the recursive
  generators; \<open>None\<close> when the fuel is used up. \<open>walk_dirs\<close> is the loop
  \<open>for d in dirs: yield from sftp_walk(sftp, new_top)\<close>.
\<close>

type_synonym walk_item = "string \<times> string list \<times> string list"

fun sftp_walk ::
    "nat \<Rightarrow> sftp \<Rightarrow> string \<Rightarrow> (walk_item \<Rightarrow> 's \<Rightarrow> 's + 'r) \<Rightarrow> 's \<Rightarrow> ('s + 'r) option"
  and walk_dirs ::
    "nat \<Rightarrow> sftp \<Rightarrow> string \<Rightarrow> string list \<Rightarrow> (walk_item \<Rightarrow> 's \<Rightarrow> 's + 'r) \<Rightarrow> 's \<Rightarrow> ('s + 'r) option"
where
  "sftp_walk 0 sftp top' body s = None"
| "sftp_walk (Suc fuel) sftp top' body s =
     (case sftp top' of
        Inl e \<Rightarrow> Some (Inl s)
      | Inr entries \<Rightarrow>
          (let (dirs, files) = classify entries
           in case body (top', dirs, files) s of
                Inr r \<Rightarrow> Some (Inr r)
              | Inl s' \<Rightarrow> walk_dirs fuel sftp top' dirs body s'))"
| "walk_dirs fuel sftp top' [] body s = Some (Inl s)"
| "walk_dirs fuel sftp top' (d # ds) body s =
     (case sftp_walk fuel sftp (new_top top' d) body s of
        None \<Rightarrow> None
      | Some (Inr r) \<Rightarrow> Some (Inr r)
      | Some (Inl s') \<Rightarrow> walk_dirs fuel sftp top' ds body s')"

text \<open>\<open>list(sftp_walk(sftp, top))\<close>: the loop that only collects what is yielded.\<close>

definition collect :: "walk_item \<Rightarrow> walk_item list \<Rightarrow> walk_item list + unit" where
  "collect item acc = Inl (acc @ [item])"

definition walk_list :: "nat \<Rightarrow> sftp \<Rightarrow> string \<Rightarrow> walk_item list option" where
  "walk_list fuel sftp top' =
     (case sftp_walk fuel sftp top' collect [] of
        Some (Inl items) \<Rightarrow> Some items
      | _ \<Rightarrow> None)"

text \<open>
  The inner loop of \<open>search_remote\<close> over the files of one yielded tuple (\<open>top'\<close> and
  \<open>root'\<close> stand for the source's \<open>top\<close> and \<open>root\<close>). The state is
  \<open>(results, count)\<close>; \<open>q in fname.lower()\<close> is the substring test.
\<close>

fun search_files ::
  "string \<Rightarrow> int \<Rightarrow> string \<Rightarrow> string list \<Rightarrow> string list \<times> int \<Rightarrow> (string list \<times> int) + string list"
where
  "search_files q limit root' [] (results, count) = Inl (results, count)"
| "search_files q limit root' (fname # files) (results, count) =
     (if sublist q (lower fname) then
        (let results' = results @ [rstrip_slash root' @ ''/'' @ fname];
             count' = count + 1
         in if count' \<ge> limit then Inr results'
            else search_files q limit root' files (results', count'))
      else search_files q limit root' files (results, count))"

definition search_body ::
  "string \<Rightarrow> int \<Rightarrow> walk_item \<Rightarrow> string list \<times> int \<Rightarrow> (string list \<times> int) + string list"
where
  "search_body q limit item st = (case item of (root', dirs, files) \<Rightarrow> search_files q limit root' files st)"

text \<open>\<open>query or ""\<close>\<close>

definition or_empty :: "string option \<Rightarrow> string" where
  "or_empty query = (case query of None \<Rightarrow> [] | Some s \<Rightarrow> s)"

definition search_remote :: "nat \<Rightarrow> sftp \<Rightarrow> string \<Rightarrow> string option \<Rightarrow> int \<Rightarrow> string list option" where
  "search_remote fuel sftp base_dir query limit =
     (let q = lower (strip (or_empty query))
      in if q = [] then Some []
         else (case sftp_walk fuel sftp base_dir (search_body q limit) ([], 0) of
                 None \<Rightarrow> None
               | Some (Inl (results, count)) \<Rightarrow> Some results
               | Some (Inr results) \<Rightarrow> Some results))"

text \<open>
  What a search is to return, in the words of its description: the paths of the files
  whose lower-cased name contains \<open>q\<close>, in the order the walk yields them. \<open>search_remote\<close>
  is compared with it.
\<close>

definition matches :: "string \<Rightarrow> walk_item list \<Rightarrow> string list" where
  "matches q items =
     concat (map (\<lambda>(root', dirs, files).
                    map (\<lambda>fname. rstrip_slash root' @ ''/'' @ fname)
                      (filter (\<lambda>fname. sublist q (lower fname)) files)) items)"

text \<open>
  The directory names of one listing are usable as path components: pairwise distinct,
  not empty, without \<open>/\<close>.
\<close>

definition ok_names :: "string list \<Rightarrow> bool" where
  "ok_names ds \<longleftrightarrow> distinct ds \<and> (\<forall>d \<in> set ds. d \<noteq> [] \<and> CHR ''/'' \<notin> set d)"

subsection \<open>Concrete remote trees\<close>

text \<open>The modes \<open>0o040755\<close>, \<open>0o100644\<close> and \<open>0o120777\<close>: a directory, a regular file, a link.\<close>

definition MODE_DIR :: int where "MODE_DIR = 16877"

definition MODE_REG :: int where "MODE_REG = 33188"

definition MODE_LNK :: int where "MODE_LNK = 41471"

text \<open>
  A tree with cyclic links: \<open>/r\<close> holds the directory \<open>a\<close>, the link \<open>loop\<close> to \<open>/r\<close> itself
  and a file; \<open>/r/a\<close> holds the link \<open>back\<close> to \<open>/r\<close> and a file. The server resolves links
  inside a path, so a path through \<open>loop\<close> or \<open>back\<close> lists \<open>/r\<close> again. \<open>depth_cyc\<close> bounds
  the nesting of the directories that are not links.
\<close>

definition sftp_cyc :: sftp where
  "sftp_cyc p =
     (if basename p = ''a'' then Inr [(''back'', MODE_LNK), (''g.bin'', MODE_REG)]
      else if basename p \<in> {''r'', ''loop'', ''back''}
        then Inr [(''a'', MODE_DIR), (''loop'', MODE_LNK), (''f.bin'', MODE_REG)]
      else Inl ''No such file'')"

definition depth_cyc :: "string \<Rightarrow> nat" where
  "depth_cyc p = (if basename p = ''a'' then 0 else 1)"

text \<open>
  The platform \<open>ps1\<close> holding \<open>a.bin\<close>, \<open>b.iso\<close> and \<open>B2.bin\<close>; and a tree of unbounded depth,
  where every directory holds a file \<open>a.bin\<close> and a directory \<open>d\<close>.
\<close>

definition sftp_ps1 :: sftp where
  "sftp_ps1 p =
     (if p = ''/roms/ps1''
      then Inr [(''a.bin'', MODE_REG), (''b.iso'', MODE_REG), (''B2.bin'', MODE_REG)]
      else Inl ''No such file'')"

definition sftp_deep :: sftp where
  "sftp_deep p = Inr [(''a.bin'', MODE_REG), (''d'', MODE_DIR)]"

section \<open>The orchestrator: \<open>search_and_download\<close>\<close>

subsection \<open>Building the display list\<close>

text \<open>
  \<open>str.replace(old, new)\<close>: every occurrence of \<open>old\<close> is replaced, scanning from the left
  and continuing after each replaced occurrence. \<open>replace_ne\<close> is the scan for a pattern
  \<open>a # as\<close> that is not empty; with an empty pattern Python puts \<open>new\<close> before every
  character and at the end.
\<close>

fun replace_ne :: "char \<Rightarrow> string \<Rightarrow> string \<Rightarrow> string \<Rightarrow> string" where
  "replace_ne a as new [] = []"
| "replace_ne a as new (c # cs) =
     (if prefix (a # as) (c # cs) then new @ replace_ne a as new (drop (length as) cs)
      else c # replace_ne a as new cs)"

definition replace :: "string \<Rightarrow> string \<Rightarrow> string \<Rightarrow> string" where
  "replace s old new =
     (case old of
        [] \<Rightarrow> new @ concat (map (\<lambda>c. c # new) s)
      | a # as \<Rightarrow> replace_ne a as new s)"

text \<open>
  The three statements that build \<open>display_items\<close> and \<open>label_to_remote\<close> from the search
  results. The dictionary comprehension stores the pairs in order, a later pair
  overwriting an earlier one with the same label.
\<close>

definition build_display :: "string \<Rightarrow> string list \<Rightarrow> string list \<times> (string \<rightharpoonup> string)" where
  "build_display remote_base results =
     (let display_items = map (\<lambda>p. replace p (remote_base @ ''/'') []) results;
          label_to_remote = fold (\<lambda>(label, full) m. m(label \<mapsto> full)) (zip display_items results) Map.empty
      in (display_items @ [''< Back''], label_to_remote))"

subsection \<open>Single and batch downloads\<close>

text \<open>
  The globals of the orchestrator: those shared with the worker, the selection set and the
  multi-select flag. \<open>started\<close> records the downloads that were started, in order: the
  label, the remote path given to \<open>download_file\<close>, and the \<open>index\<close> and \<open>total\<close> given to
  \<open>download_screen\<close> (\<open>None\<close> for a single download).
\<close>

record task =
  task_label :: string
  task_remote_path :: string
  task_index :: "nat option"
  task_total :: "nat option"

record session = globals +
  selected_results :: "string set"
  multi_select_enabled :: bool
  started :: "task list"

text \<open>
  What happens in the \<open>try\<close> block around one download, for the label it is started for:
  \<open>os.makedirs\<close> raises (before \<open>i += 1\<close>); creating or starting the thread raises (after
  \<open>i += 1\<close>); or the worker runs, \<open>download_screen\<close> and \<open>t.join(timeout=0.1)\<close> return, and
  \<open>stop_download\<close> is then read with the given value (the worker clears the flag when it
  starts, \<open>download_screen\<close> sets it on a cancel command).
\<close>

datatype attempt = Raised_before string | Raised_after string | Ran bool

text \<open>
  The loop \<open>for label in [lbl for lbl in display_items if lbl in selected_results]\<close>; \<open>i\<close> is
  the counter of the same name.
\<close>

fun batch_loop ::
  "(string \<Rightarrow> attempt) \<Rightarrow> (string \<rightharpoonup> string) \<Rightarrow> nat \<Rightarrow> string list \<Rightarrow> nat \<Rightarrow> session \<Rightarrow> session"
where
  "batch_loop env label_to_remote tot [] i s = s"
| "batch_loop env label_to_remote tot (lbl # rest) i s =
     (if lbl = ''< Back'' then batch_loop env label_to_remote tot rest i s
      else
        (case label_to_remote lbl of
           None \<Rightarrow>
             batch_loop env label_to_remote tot rest i
               (notify (''Missing remote path for '' @ lbl) Error s)
         | Some path \<Rightarrow>
             if path = [] then
               batch_loop env label_to_remote tot rest i
                 (notify (''Missing remote path for '' @ lbl) Error s)
             else
               (case env lbl of
                  Raised_before e \<Rightarrow>
                    batch_loop env label_to_remote tot rest i
                      (notify (''Failed to start download: '' @ e) Error s)
                | Raised_after e \<Rightarrow>
                    batch_loop env label_to_remote tot rest (i + 1)
                      (notify (''Failed to start download: '' @ e) Error s)
                | Ran stop \<Rightarrow>
                    (let s1 = s\<lparr>started := started s @
                                  [\<lparr>task_label = lbl, task_remote_path = path,
                                    task_index = Some (i + 1), task_total = Some tot\<rparr>],
                               stop_download := stop\<rparr>
                     in if stop_download s1 then s1\<lparr>stop_download := False\<rparr>
                        else batch_loop env label_to_remote tot rest (i + 1) s1))))"

text \<open>
  The branch \<open>if sel == "__MULTI_START__"\<close> up to the clearing of the selection. The
  message of the last notification holds a dash outside ASCII, written here as the three
  bytes of its UTF-8 encoding.
\<close>

definition run_batch ::
  "(string \<Rightarrow> attempt) \<Rightarrow> string list \<Rightarrow> (string \<rightharpoonup> string) \<Rightarrow> session \<Rightarrow> session"
where
  "run_batch env display_items label_to_remote s =
     (if selected_results s = {} then notify ''No entries selected'' Info s
      else
        (let tot = card (selected_results s);
             s1 = batch_loop env label_to_remote tot
                    (filter (\<lambda>lbl. lbl \<in> selected_results s) display_items) 0 s;
             s2 = s1\<lparr>selected_results := {}, multi_select_enabled := False\<rparr>
         in notify (''Multi Select OFF '' @ [CHR 0xE2, CHR 0x80, CHR 0x94] @ '' selections cleared'')
              Info s2))"

text \<open>
  The single-selection path for the chosen entry \<open>sel\<close>, after the confirmation menu
  answered \<open>confirm\<close>.
\<close>

definition run_single ::
  "(string \<Rightarrow> attempt) \<Rightarrow> (string \<rightharpoonup> string) \<Rightarrow> string \<Rightarrow> bool \<Rightarrow> session \<Rightarrow> session"
where
  "run_single env label_to_remote sel confirm s =
     (case label_to_remote sel of
        None \<Rightarrow> notify ''Invalid selection.'' Error s
      | Some path \<Rightarrow>
          if \<not> confirm then s
          else
            (case env sel of
               Raised_before e \<Rightarrow> notify (''Failed to start download: '' @ e) Error s
             | Raised_after e \<Rightarrow> notify (''Failed to start download: '' @ e) Error s
             | Ran stop \<Rightarrow>
                 s\<lparr>started := started s @
                      [\<lparr>task_label = sel, task_remote_path = path, task_index = None,
                        task_total = None\<rparr>],
                   stop_download := stop\<rparr>))"

text \<open>
  What the loop is to do, in the words of its description: the selected labels in display
  order, each started download numbered from 1, up to and including the first one on which
  cancellation is observed.
\<close>

fun until_cancel :: "(string \<Rightarrow> bool) \<Rightarrow> string list \<Rightarrow> string list" where
  "until_cancel c [] = []"
| "until_cancel c (x # xs) = (if c x then [x] else x # until_cancel c xs)"

definition numbered :: "(string \<rightharpoonup> string) \<Rightarrow> nat \<Rightarrow> nat \<Rightarrow> string list \<Rightarrow> task list" where
  "numbered label_to_remote tot i labels =
     map (\<lambda>(k, lbl). \<lparr>task_label = lbl, task_remote_path = the (label_to_remote lbl),
                       task_index = Some (Suc k), task_total = Some tot\<rparr>)
       (enumerate i labels)"

subsection \<open>Concrete sessions\<close>

text \<open>
  A platform \<open>a\<close> that holds the file \<open>xf.bin\<close> and, in \<open>x/roms/a\<close>, the file \<open>f.bin\<close>.
\<close>

definition sftp_dup :: sftp where
  "sftp_dup p =
     (if p = ''/roms/a'' then Inr [(''xf.bin'', MODE_REG), (''x'', MODE_DIR)]
      else if p = ''/roms/a/x'' then Inr [(''roms'', MODE_DIR)]
      else if p = ''/roms/a/x/roms'' then Inr [(''a'', MODE_DIR)]
      else if p = ''/roms/a/x/roms/a'' then Inr [(''f.bin'', MODE_REG)]
      else Inl ''No such file'')"

text \<open>
  A session at rest; five results of which the second and the fourth are selected; and
  three courses of events: every download runs to its end, the download of \<open>r2\<close> is
  cancelled, and \<open>os.makedirs\<close> fails for every label.
\<close>

definition session0 :: session where
  "session0 = \<lparr>downloading = False, download_progress = 0, download_speed = 0, download_eta = 0,
     stop_download = False, notified = [], selected_results = {}, multi_select_enabled = False,
     started = []\<rparr>"

definition five_items :: "string list" where
  "five_items = [''r1'', ''r2'', ''r3'', ''r4'', ''r5'', ''< Back'']"

definition five_remote :: "string \<rightharpoonup> string" where
  "five_remote = snd (build_display ''/roms/ps1''
     [''/roms/ps1/r1'', ''/roms/ps1/r2'', ''/roms/ps1/r3'', ''/roms/ps1/r4'', ''/roms/ps1/r5''])"

definition all_run :: "string \<Rightarrow> attempt" where
  "all_run lbl = Ran False"

definition cancel_r2 :: "string \<Rightarrow> attempt" where
  "cancel_r2 lbl = Ran (lbl = ''r2'')"

definition no_dirs :: "string \<Rightarrow> attempt" where
  "no_dirs lbl = Raised_before ''File exists''"

text \<open>Whether the download for a label ran, and whether cancellation was observed on it.\<close>

definition did_run :: "(string \<Rightarrow> attempt) \<Rightarrow> string \<Rightarrow> bool" where
  "did_run env lbl = (case env lbl of Ran stop \<Rightarrow> True | _ \<Rightarrow> False)"

definition cancelled :: "(string \<Rightarrow> attempt) \<Rightarrow> string \<Rightarrow> bool" where
  "cancelled env lbl = (case env lbl of Ran stop \<Rightarrow> stop | _ \<Rightarrow> False)"

text \<open>
  The session in which \<open>r4\<close> and then \<open>r2\<close> were marked; and the same after a single
  download of \<open>r1\<close> that the user cancelled.
\<close>

definition session_marked :: session where
  "session_marked = session0\<lparr>selected_results := {''r4'', ''r2''}, multi_select_enabled := True\<rparr>"

definition session_after_cancel :: session where
  "session_after_cancel =
     (run_single (\<lambda>lbl. Ran True) five_remote ''r1'' True session0)
       \<lparr>selected_results := {''r4'', ''r2''}, multi_select_enabled := True\<rparr>"

section \<open>The notification list: \<open>show_notification\<close>, \<open>draw_notifications\<close>\<close>

text \<open>
  A \<open>Notification\<close> object. Python compares the objects by identity (\<open>notification in
  notifications\<close>, \<open>notifications.remove(notification)\<close>), so each carries an identity
  \<open>nid\<close>. Times are readings of \<open>time.time()\<close>, Python floats, modelled as reals.
\<close>

record notification =
  nid :: nat
  message :: string
  kind :: ntype
  created_at :: real
  lifetime :: real

text \<open>
  The list \<open>notifications\<close>, and the \<open>threading.Timer\<close> objects that were started and have
  not run yet: for each, the time at which its interval has passed and the notification it
  is to remove.
\<close>

record bus =
  notifications :: "notification list"
  timers :: "(real \<times> nat) list"
  next_nid :: nat

definition Notification :: "nat \<Rightarrow> string \<Rightarrow> ntype \<Rightarrow> real \<Rightarrow> notification" where
  "Notification i msg t now = \<lparr>nid = i, message = msg, kind = t, created_at = now, lifetime = 10\<rparr>"

definition is_expired :: "real \<Rightarrow> notification \<Rightarrow> bool" where
  "is_expired now n \<longleftrightarrow> now - created_at n > lifetime n"

text \<open>
  \<open>show_notification(message, notification_type, duration)\<close> at time \<open>now\<close>; every call in
  the program leaves \<open>duration\<close> at its default 3.
\<close>

definition show_notification :: "real \<Rightarrow> string \<Rightarrow> ntype \<Rightarrow> real \<Rightarrow> bus \<Rightarrow> bus" where
  "show_notification now msg t duration b =
     b\<lparr>notifications := notifications b @ [Notification (next_nid b) msg t now],
       timers := timers b @ [(now + duration, next_nid b)],
       next_nid := Suc (next_nid b)\<rparr>"

text \<open>The timer's callback \<open>remove_notification\<close>, for the notification with identity \<open>i\<close>.\<close>

definition remove_notification :: "nat \<Rightarrow> bus \<Rightarrow> bus" where
  "remove_notification i b = b\<lparr>notifications := filter (\<lambda>n. nid n \<noteq> i) (notifications b)\<rparr>"

text \<open>
  The state of the list at time \<open>now\<close> when no timer is late: every timer whose interval
  has passed has run its callback.
\<close>

definition run_timers :: "real \<Rightarrow> bus \<Rightarrow> bus" where
  "run_timers now b =
     (fold (\<lambda>(due, i) b'. if due \<le> now then remove_notification i b' else b') (timers b) b)
       \<lparr>timers := filter (\<lambda>(due, i). \<not> due \<le> now) (timers b)\<rparr>"

text \<open>
  \<open>draw_notifications\<close>: the notifications of the snapshot that are drawn, at clock reading
  \<open>now\<close>, and the list after the pruning at the end of the frame, at clock reading \<open>now'\<close>.
\<close>

definition draw_notifications :: "real \<Rightarrow> real \<Rightarrow> bus \<Rightarrow> notification list \<times> bus" where
  "draw_notifications now now' b =
     (let snapshot = notifications b;
          drawn = filter (\<lambda>n. \<not> is_expired now n) snapshot
      in (drawn, b\<lparr>notifications := filter (\<lambda>n. \<not> is_expired now' n) (notifications b)\<rparr>))"

definition bus0 :: bus where
  "bus0 = \<lparr>notifications = [], timers = [], next_nid = 0\<rparr>"

section \<open>The worker thread and the foreground loop\<close>

text \<open>
  One thread is created per download, with target \<open>download_file\<close>. A thread is \<open>Created\<close>
  until it runs the first statements of \<open>download_file\<close>, then \<open>Reading\<close> until
  \<open>download_file\<close> sets \<open>downloading = False\<close> and returns. The foreground is in a menu, in
  \<open>download_screen\<close>, or at \<open>t.join(timeout=0.1)\<close>.
\<close>

datatype phase = Created | Reading | Returned

datatype place = Menu | Screen | Join

record sys = globals +
  workers :: "phase list"
  foreground :: place

text \<open>
  One step of either thread. \<open>start\<close>: \<open>t.start()\<close> followed by the call of
  \<open>download_screen\<close>. \<open>enter\<close>: a created worker runs the first five assignments of
  \<open>download_file\<close>. \<open>leave\<close>: a worker leaves its loop (end of file, an error, or the flag
  seen set) and finishes. \<open>screen_done\<close>: \<open>download_screen\<close> finds \<open>downloading\<close> false and
  returns. \<open>screen_cancel\<close>: a cancel command sets the flag and \<open>download_screen\<close> returns at
  once. \<open>join\<close>: \<open>t.join(timeout=0.1)\<close> returns, the thread having ended or not;
  \<open>join_batch\<close> is the same in a batch, where a set flag is reset before the next menu.
\<close>

inductive step :: "sys \<Rightarrow> sys \<Rightarrow> bool" where
  start: "foreground s = Menu \<Longrightarrow>
      step s (s\<lparr>workers := workers s @ [Created], foreground := Screen\<rparr>)"
| enter: "i < length (workers s) \<Longrightarrow> workers s ! i = Created \<Longrightarrow>
      step s ((download_file_begin s)\<lparr>workers := (workers s)[i := Reading]\<rparr>)"
| leave: "i < length (workers s) \<Longrightarrow> workers s ! i = Reading \<Longrightarrow>
      step s (s\<lparr>downloading := False, workers := (workers s)[i := Returned]\<rparr>)"
| screen_done: "foreground s = Screen \<Longrightarrow> \<not> downloading s \<Longrightarrow>
      step s (s\<lparr>foreground := Join\<rparr>)"
| screen_cancel: "foreground s = Screen \<Longrightarrow> downloading s \<Longrightarrow>
      step s (s\<lparr>stop_download := True, foreground := Join\<rparr>)"
| join: "foreground s = Join \<Longrightarrow> step s (s\<lparr>foreground := Menu\<rparr>)"
| join_batch: "foreground s = Join \<Longrightarrow>
      step s (s\<lparr>stop_download := False, foreground := Menu\<rparr>)"

definition sys0 :: sys where
  "sys0 = \<lparr>downloading = False, download_progress = 0, download_speed = 0, download_eta = 0,
     stop_download = False, notified = [], workers = [], foreground = Menu\<rparr>"

inductive reachable :: "sys \<Rightarrow> bool" where
  init: "reachable sys0"
| later: "reachable s \<Longrightarrow> step s s' \<Longrightarrow> reachable s'"

text \<open>The workers that have been started and have not returned.\<close>

definition active :: "sys \<Rightarrow> nat" where
  "active s = length (filter (\<lambda>p. p \<noteq> Returned) (workers s))"

text \<open>The state in which two workers are inside \<open>download_file\<close>.\<close>

definition two_workers :: sys where
  "two_workers = \<lparr>downloading = True, download_progress = 0, download_speed = 0, download_eta = 0,
     stop_download = False, notified = [], workers = [Reading, Reading], foreground = Screen\<rparr>"

section \<open>Notions used in the proofs\<close>

text \<open>
  \<open>no_success_since w w'\<close>: the notifications of \<open>w'\<close> are those of \<open>w\<close> followed by
  notifications none of which is of type \<open>success\<close>.
\<close>

definition no_success_since :: "world \<Rightarrow> world \<Rightarrow> bool" where
  "no_success_since w w' \<longleftrightarrow> (\<exists>xs. notified w' = notified w @ xs \<and> Success \<notin> fst ` set xs)"

text \<open>
  \<open>run body items s\<close> is a \<open>for\<close> loop with body \<open>body\<close> over an already computed list of
  yielded tuples; \<open>walk_dirs_list\<close> collects what the loop over the subdirectories yields.
\<close>

fun run :: "(walk_item \<Rightarrow> 's \<Rightarrow> 's + 'r) \<Rightarrow> walk_item list \<Rightarrow> 's \<Rightarrow> 's + 'r" where
  "run body [] s = Inl s"
| "run body (item # items) s =
     (case body item s of Inl s' \<Rightarrow> run body items s' | Inr r \<Rightarrow> Inr r)"

definition walk_dirs_list :: "nat \<Rightarrow> sftp \<Rightarrow> string \<Rightarrow> string list \<Rightarrow> walk_item list option" where
  "walk_dirs_list fuel sftp top' ds =
     (case walk_dirs fuel sftp top' ds collect [] of
        Some (Inl items) \<Rightarrow> Some items
      | _ \<Rightarrow> None)"

text \<open>
  \<open>listed sftp item\<close>: the yielded tuple is a listed directory with its entries sorted by
  \<open>classify\<close>. \<open>below top' ds p\<close>: the path \<open>p\<close> lies in the subtree of one of the
  directories \<open>ds\<close> of \<open>top'\<close>.
\<close>

definition listed :: "sftp \<Rightarrow> walk_item \<Rightarrow> bool" where
  "listed sftp item \<longleftrightarrow> (\<exists>es. sftp (fst item) = Inr es \<and> snd item = classify es)"

definition below :: "string \<Rightarrow> string list \<Rightarrow> string \<Rightarrow> bool" where
  "below tp ds p \<longleftrightarrow> (\<exists>d \<in> set ds. \<exists>r. p = new_top tp d @ r \<and> (r = [] \<or> hd r = CHR ''/''))"

text \<open>
  \<open>hit sftp q p\<close>: the path \<open>p\<close> is a file entry of a listed directory whose lower-cased
  name contains \<open>q\<close>. \<open>search_inv\<close> is the invariant of the search loop on its state
  \<open>(results, count)\<close>, \<open>search_post\<close> what holds of the list it returns.
\<close>

definition hit :: "sftp \<Rightarrow> string \<Rightarrow> string \<Rightarrow> bool" where
  "hit sftp q p \<longleftrightarrow>
     (\<exists>root' es fname mode. sftp root' = Inr es \<and> (fname, mode) \<in> set es \<and>
        \<not> S_ISLNK mode \<and> \<not> S_ISDIR mode \<and>
        p = rstrip_slash root' @ ''/'' @ fname \<and> sublist q (lower fname))"

definition search_inv :: "sftp \<Rightarrow> string \<Rightarrow> int \<Rightarrow> string list \<times> int \<Rightarrow> bool" where
  "search_inv sftp q limit st \<longleftrightarrow>
     snd st = int (length (fst st)) \<and> (\<forall>p \<in> set (fst st). hit sftp q p) \<and>
     (1 \<le> limit \<longrightarrow> snd st < limit)"

definition search_post :: "sftp \<Rightarrow> string \<Rightarrow> int \<Rightarrow> string list \<Rightarrow> bool" where
  "search_post sftp q limit rs \<longleftrightarrow>
     (\<forall>p \<in> set rs. hit sftp q p) \<and> (1 \<le> limit \<longrightarrow> int (length rs) \<le> limit)"

text \<open>
  \<open>batch_rel s s'\<close>: what the loop may do to a session. The selection and the multi-select
  flag are untouched; either nothing was started and the cancel flag is as before, or
  something was started and the flag is unset.
\<close>

definition batch_rel :: "session \<Rightarrow> session \<Rightarrow> bool" where
  "batch_rel s s' \<longleftrightarrow>
     selected_results s' = selected_results s \<and>
     multi_select_enabled s' = multi_select_enabled s \<and>
     (started s' = started s \<and> stop_download s' = stop_download s \<or>
      (\<exists>new. new \<noteq> [] \<and> started s' = started s @ new) \<and> \<not> stop_download s')"

section \<open>Properties of \<open>download_file\<close>\<close>



lemma nss_step: "no_success_since w w' \<Longrightarrow> notified w'' = notified w' @ [(t, m)] \<Longrightarrow> t \<noteq> Success
    \<Longrightarrow> no_success_since w w''"
  by (auto simp: no_success_since_def)

lemma observe_flag_fields [simp]:
  "notified (observe_flag fg w) = notified w"
  "local_file (observe_flag fg w) = local_file w"
  "downloading (observe_flag fg w) = downloading w"
  "stop_download (observe_flag None w) = stop_download w"
  "stop_download (observe_flag (Some b) w) = b"
  by (simp_all add: observe_flag_def split: option.splits)

lemma notify_fields [simp]:
  "notified (notify m t w) = notified w @ [(t, m)]"
  "local_file (notify m t w) = local_file w"
  "stop_download (notify m t w) = stop_download w"
  by (simp_all add: notify_def)

lemma cleanup_stop [simp]: "stop_download (cleanup env m w) = stop_download w"
  by (simp add: cleanup_def split: option.splits)

















lemma begin_fields [simp]:
  "notified (download_file_begin w) = notified w"
  "local_file (download_file_begin w) = local_file w"
  "stop_download (download_file_begin w) = False"
  by (simp_all add: download_file_begin_def)











lemma abort_note_cases:
  "abort_note ns env n = (if iteration env n = Abort then ns @ [(Info, ''Download aborted by user'')] else ns)"
  by (simp add: abort_note_def)








lemmas dl_eval = download_file_def download_file_try_def download_file_begin_def on_exception_def
  cleanup_def complete_def Let_def observe_flag_def notify_def numeral_2_eq_2 w0_def








lemma run_rmfail:
  "download_file 2 env_rmfail rp lp w0 =
     Some \<lparr>final = \<lparr>downloading = False, download_progress = 1, download_speed = 3 / 1048576,
                    download_eta = 0, stop_download = False,
                    notified = [(Error, ''Download failed: Socket is closed''),
                                (Error, ''Failed to remove partial file: Permission denied'')],
                    local_file = Some [1, 2, 3]\<rparr>,
           raised = Some ''Socket is closed'', success = False, st_size = 3, read_bytes = 3\<rparr>"
  by (simp add: dl_eval env_rmfail_def env_io_def env_ok_def)






text \<open>
  The worker returns whenever one of its iterations leaves the loop: fuel for one more
  iteration than that iteration's number is enough.
\<close>

lemma read_loop_returns:
  assumes stop: "iteration env k \<noteq> Copy"
  shows "k = j + n \<Longrightarrow> \<exists>res. read_loop (Suc n) env sz j w rb lt lb = Some res"
proof (induction n arbitrary: j w rb lt lb)
  case 0
  with stop show ?case
    by (auto simp: iteration_def Let_def observe_flag_def split: sum.splits option.splits if_splits)
next
  case (Suc n)
  then have k: "k = Suc j + n" by simp
  note IH = Suc.IH[OF k]
  show ?case
    apply (subst read_loop.simps(2))
    using IH
    apply (simp add: Let_def split: sum.splits option.splits del: read_loop.simps)
    done
qed

lemma download_file_returns:
  assumes "iteration env k \<noteq> Copy"
  shows "\<exists>r. download_file (Suc k) env remote_path local_path w = Some r"
proof -
  let ?w1 = "(download_file_begin w)\<lparr>local_file := Some []\<rparr>"
  from read_loop_returns[OF assms, of 0 k "projr (stat_res env)" ?w1 0 "clock env 0" 0]
  obtain w2 rb ex where
    "read_loop (Suc k) env (projr (stat_res env)) 0 ?w1 0 (clock env 0) 0 = Some (w2, rb, ex)"
    by auto
  then have "\<exists>r0. download_file_try (Suc k) env local_path (download_file_begin w) = Some r0"
    by (auto simp: download_file_try_def Let_def split: option.splits sum.splits
        simp del: read_loop.simps)
  then show ?thesis by (auto simp: download_file_def)
qed

section \<open>Properties of the walk\<close>

lemma classify_fst: "fst (classify es) = map fst (filter (\<lambda>(n, m). \<not> S_ISLNK m \<and> S_ISDIR m) es)"
  by (induction es rule: classify.induct) (auto simp: Let_def split: prod.splits)

lemma classify_snd: "snd (classify es) = map fst (filter (\<lambda>(n, m). \<not> S_ISLNK m \<and> \<not> S_ISDIR m) es)"
  by (induction es rule: classify.induct) (auto simp: Let_def split: prod.splits)

lemma sftp_walk_Suc:
  "sftp_walk (Suc fuel) sftp tp body s =
     (case sftp tp of
        Inl e \<Rightarrow> Some (Inl s)
      | Inr es \<Rightarrow>
          (case body (tp, classify es) s of
             Inr r \<Rightarrow> Some (Inr r)
           | Inl s' \<Rightarrow> walk_dirs fuel sftp tp (fst (classify es)) body s'))"
  by (simp split: sum.splits prod.splits)

lemma run_append:
  "run body (xs @ ys) s = (case run body xs s of Inl s' \<Rightarrow> run body ys s' | Inr r \<Rightarrow> Inr r)"
  by (induction xs arbitrary: s) (auto split: sum.splits)

lemma run_collect: "run collect items acc = Inl (acc @ items)"
  by (induction items arbitrary: acc) (auto simp: collect_def)

lemma walk_invariant:
  assumes step: "\<And>tp es s. sftp tp = Inr es \<Longrightarrow> I s \<Longrightarrow>
      (case body (tp, classify es) s of Inl s' \<Rightarrow> I s' | Inr r \<Rightarrow> R r)"
  shows "I s \<Longrightarrow> sftp_walk fuel sftp tp body s = Some res \<Longrightarrow>
           (case res of Inl s' \<Rightarrow> I s' | Inr r \<Rightarrow> R r)"
    and "I s \<Longrightarrow> walk_dirs fuel sftp tp ds body s = Some res \<Longrightarrow>
           (case res of Inl s' \<Rightarrow> I s' | Inr r \<Rightarrow> R r)"
  using step
proof (induction fuel sftp tp body s and fuel sftp tp ds body s arbitrary: res and res
    rule: sftp_walk_walk_dirs.induct)
  case (1 sftp top' body s)
  then show ?case by simp
next
  case (2 fuel sftp top' body s)
  note inv = "2.prems"(1) and run = "2.prems"(2) and st = "2.prems"(3)
  show ?case
  proof (cases "sftp top'")
    case (Inl e)
    with inv run show ?thesis by auto
  next
    case (Inr es)
    obtain dirs files where cl: "classify es = (dirs, files)" by (cases "classify es")
    from st[OF Inr inv] cl
    have b: "case body (top', dirs, files) s of Inl s' \<Rightarrow> I s' | Inr r \<Rightarrow> R r" by simp
    show ?thesis
    proof (cases "body (top', dirs, files) s")
      case (Inl s')
      with b have "I s'" by simp
      moreover from run Inr cl Inl have "walk_dirs fuel sftp top' dirs body s' = Some res"
        by simp
      ultimately show ?thesis using "2.IH"[OF Inr cl[symmetric] refl Inl _ _ st] by blast
    next
      case r: (Inr r)
      with b run Inr cl show ?thesis by auto
    qed
  qed
next
  case (3 fuel sftp top' body s)
  then show ?case by auto
next
  case (4 fuel sftp top' d ds body s)
  note inv = "4.prems"(1) and run = "4.prems"(2) and st = "4.prems"(3)
  show ?case
  proof (cases "sftp_walk fuel sftp (new_top top' d) body s")
    case None
    with run show ?thesis by simp
  next
    case (Some a)
    from "4.IH"(1)[OF inv Some st]
    have a: "case a of Inl s' \<Rightarrow> I s' | Inr r \<Rightarrow> R r" .
    show ?thesis
    proof (cases a)
      case (Inl s')
      with a have "I s'" by simp
      moreover from run Some Inl have "walk_dirs fuel sftp top' ds body s' = Some res"
        by simp
      ultimately show ?thesis using "4.IH"(2)[OF Some Inl _ _ st] by blast
    next
      case (Inr r)
      with a run Some show ?thesis by auto
    qed
  qed
qed


declare sftp_walk.simps(2) [simp del]

lemma sftp_walk_collect_Suc:
  "sftp_walk (Suc fuel) sftp tp collect acc =
     (case sftp tp of
        Inl e \<Rightarrow> Some (Inl acc)
      | Inr es \<Rightarrow> walk_dirs fuel sftp tp (fst (classify es)) collect (acc @ [(tp, classify es)]))"
proof (cases "sftp tp")
  case (Inl e)
  then show ?thesis by (simp add: sftp_walk_Suc)
next
  case (Inr es)
  have c: "collect (tp, classify es) acc = Inl (acc @ [(tp, classify es)])"
    by (simp add: collect_def)
  show ?thesis by (simp add: sftp_walk_Suc Inr c)
qed

lemma walk_dirs_fusion:
  assumes IH: "\<And>tp acc res. sftp_walk fuel sftp tp collect acc = Some res \<Longrightarrow>
      \<exists>items. res = Inl (acc @ items) \<and>
        (\<forall>(body :: walk_item \<Rightarrow> 's \<Rightarrow> 's + 'r) s.
            sftp_walk fuel sftp tp body s = Some (run body items s))"
  shows "walk_dirs fuel sftp tp ds collect acc = Some res \<Longrightarrow>
      \<exists>items. res = Inl (acc @ items) \<and>
        (\<forall>(body :: walk_item \<Rightarrow> 's \<Rightarrow> 's + 'r) s.
            walk_dirs fuel sftp tp ds body s = Some (run body items s))"
proof (induction ds arbitrary: acc res)
  case Nil
  then show ?case by auto
next
  case (Cons d ds)
  from Cons.prems obtain a where a: "sftp_walk fuel sftp (new_top tp d) collect acc = Some a"
    by (auto split: option.splits)
  from IH[OF a] obtain i1 where i1: "a = Inl (acc @ i1)"
    "\<And>(body :: walk_item \<Rightarrow> 's \<Rightarrow> 's + 'r) s.
        sftp_walk fuel sftp (new_top tp d) body s = Some (run body i1 s)"
    by blast
  from Cons.prems a i1(1) have "walk_dirs fuel sftp tp ds collect (acc @ i1) = Some res"
    by simp
  from Cons.IH[OF this] obtain i2 where i2: "res = Inl ((acc @ i1) @ i2)"
    "\<And>(body :: walk_item \<Rightarrow> 's \<Rightarrow> 's + 'r) s.
        walk_dirs fuel sftp tp ds body s = Some (run body i2 s)"
    by blast
  have "walk_dirs fuel sftp tp (d # ds) body s = Some (run body (i1 @ i2) s)"
    for body :: "walk_item \<Rightarrow> 's \<Rightarrow> 's + 'r" and s
    by (simp add: i1(2) i2(2) run_append split: sum.splits)
  with i2(1) show ?case by auto
qed

lemma sftp_walk_fusion:
  "sftp_walk fuel sftp tp collect acc = Some res \<Longrightarrow>
      \<exists>items. res = Inl (acc @ items) \<and>
        (\<forall>(body :: walk_item \<Rightarrow> 's \<Rightarrow> 's + 'r) s.
            sftp_walk fuel sftp tp body s = Some (run body items s))"
proof (induction fuel arbitrary: tp acc res)
  case 0
  then show ?case by simp
next
  case (Suc fuel)
  show ?case
  proof (cases "sftp tp")
    case (Inl e)
    with Suc.prems have "res = Inl (acc @ [])" by (simp add: sftp_walk_collect_Suc)
    moreover have "sftp_walk (Suc fuel) sftp tp body s = Some (run body [] s)"
      for body :: "walk_item \<Rightarrow> 's \<Rightarrow> 's + 'r" and s
      using Inl by (simp add: sftp_walk_Suc)
    ultimately show ?thesis by blast
  next
    case (Inr es)
    let ?item = "(tp, classify es)"
    from Suc.prems Inr
    have "walk_dirs fuel sftp tp (fst (classify es)) collect (acc @ [?item]) = Some res"
      by (simp add: sftp_walk_collect_Suc)
    from walk_dirs_fusion[OF Suc.IH this] obtain i where i: "res = Inl ((acc @ [?item]) @ i)"
      "\<And>(body :: walk_item \<Rightarrow> 's \<Rightarrow> 's + 'r) s.
          walk_dirs fuel sftp tp (fst (classify es)) body s = Some (run body i s)"
      by blast
    have "sftp_walk (Suc fuel) sftp tp body s = Some (run body (?item # i) s)"
      for body :: "walk_item \<Rightarrow> 's \<Rightarrow> 's + 'r" and s
      using Inr by (simp add: sftp_walk_Suc i(2) split: sum.splits)
    with i(1) show ?thesis by auto
  qed
qed

lemma walk_list_Some_iff:
  "walk_list fuel sftp tp = Some items \<longleftrightarrow> sftp_walk fuel sftp tp collect [] = Some (Inl items)"
  by (simp add: walk_list_def split: option.splits sum.splits)

lemma walk_dirs_list_Some_iff:
  "walk_dirs_list fuel sftp tp ds = Some items \<longleftrightarrow>
     walk_dirs fuel sftp tp ds collect [] = Some (Inl items)"
  by (simp add: walk_dirs_list_def split: option.splits sum.splits)

lemma walk_list_fusion:
  assumes "walk_list fuel sftp tp = Some items"
  shows "sftp_walk fuel sftp tp body s = Some (run body items s)"
  using sftp_walk_fusion[OF assms[unfolded walk_list_Some_iff]] by auto

lemma walk_dirs_list_fusion:
  assumes "walk_dirs_list fuel sftp tp ds = Some items"
  shows "walk_dirs fuel sftp tp ds body s = Some (run body items s)"
  using walk_dirs_fusion[OF sftp_walk_fusion assms[unfolded walk_dirs_list_Some_iff]] by auto

lemma sftp_walk_collect_shift:
  "sftp_walk fuel sftp tp collect acc =
     (case walk_list fuel sftp tp of None \<Rightarrow> None | Some items \<Rightarrow> Some (Inl (acc @ items)))"
proof (cases "walk_list fuel sftp tp")
  case None
  show ?thesis
  proof (cases "sftp_walk fuel sftp tp collect acc")
    case n: None
    with None show ?thesis by simp
  next
    case (Some res)
    from sftp_walk_fusion[OF Some, where ?'s = "walk_item list" and ?'r = unit]
    obtain items where "sftp_walk fuel sftp tp collect [] = Some (run collect items [])"
      by blast
    then have "walk_list fuel sftp tp = Some items"
      by (simp add: walk_list_Some_iff run_collect)
    with None show ?thesis by simp
  qed
next
  case (Some items)
  from walk_list_fusion[OF Some, of collect acc] Some show ?thesis
    by (simp add: run_collect)
qed

lemma walk_dirs_collect_shift:
  "walk_dirs fuel sftp tp ds collect acc =
     (case walk_dirs_list fuel sftp tp ds of None \<Rightarrow> None | Some items \<Rightarrow> Some (Inl (acc @ items)))"
proof (cases "walk_dirs_list fuel sftp tp ds")
  case None
  show ?thesis
  proof (cases "walk_dirs fuel sftp tp ds collect acc")
    case n: None
    with None show ?thesis by simp
  next
    case (Some res)
    from walk_dirs_fusion[OF sftp_walk_fusion Some, where ?'s = "walk_item list" and ?'r = unit]
    obtain items where "walk_dirs fuel sftp tp ds collect [] = Some (run collect items [])"
      by blast
    then have "walk_dirs_list fuel sftp tp ds = Some items"
      by (simp add: walk_dirs_list_Some_iff run_collect)
    with None show ?thesis by simp
  qed
next
  case (Some items)
  from walk_dirs_list_fusion[OF Some, of collect acc] Some show ?thesis
    by (simp add: run_collect)
qed

lemma walk_list_0 [simp]: "walk_list 0 sftp tp = None"
  by (simp add: walk_list_def)

lemma walk_dirs_list_Nil [simp]: "walk_dirs_list fuel sftp tp [] = Some []"
  by (simp add: walk_dirs_list_def)

lemma walk_list_Suc:
  "walk_list (Suc fuel) sftp tp =
     (case sftp tp of
        Inl e \<Rightarrow> Some []
      | Inr es \<Rightarrow> map_option (\<lambda>rest. (tp, classify es) # rest)
                    (walk_dirs_list fuel sftp tp (fst (classify es))))"
  unfolding walk_list_def sftp_walk_collect_Suc walk_dirs_collect_shift
  by (simp split: sum.splits option.splits)

lemma walk_dirs_list_Cons:
  "walk_dirs_list fuel sftp tp (d # ds) =
     (case walk_list fuel sftp (new_top tp d) of
        None \<Rightarrow> None
      | Some a \<Rightarrow> map_option (\<lambda>b. a @ b) (walk_dirs_list fuel sftp tp ds))"
proof -
  have h: "walk_dirs fuel sftp tp (d # ds) collect [] =
      (case walk_list fuel sftp (new_top tp d) of
         None \<Rightarrow> None
       | Some a \<Rightarrow> (case walk_dirs_list fuel sftp tp ds of None \<Rightarrow> None
                     | Some b \<Rightarrow> Some (Inl (a @ b))))"
    apply (subst walk_dirs.simps(2))
    apply (simp only: sftp_walk_collect_shift)
    apply (simp add: walk_dirs_collect_shift split: option.splits)
    done
  show ?thesis
    unfolding walk_dirs_list_def[of fuel sftp tp "d # ds"] h
    by (simp split: option.splits)
qed

lemma takeWhile_slashes:
  "takeWhile (\<lambda>c. c = CHR ''/'') xs = replicate (length (takeWhile (\<lambda>c. c = CHR ''/'') xs)) CHR ''/''"
  by (induction xs) auto

lemma rstrip_slash_decomp: "\<exists>k. s = rstrip_slash s @ replicate k CHR ''/''"
proof -
  let ?P = "\<lambda>c. c = CHR ''/''"
  let ?k = "length (takeWhile ?P (rev s))"
  have "rev (rev s) = rev (takeWhile ?P (rev s) @ dropWhile ?P (rev s))"
    by (simp only: takeWhile_dropWhile_id)
  then have "s = rev (dropWhile ?P (rev s)) @ rev (takeWhile ?P (rev s))"
    by (simp only: rev_append rev_rev_ident)
  also have "rev (takeWhile ?P (rev s)) = replicate ?k CHR ''/''"
    by (subst takeWhile_slashes) (simp only: rev_replicate)
  finally have "s = rstrip_slash s @ replicate ?k CHR ''/''"
    by (simp only: rstrip_slash_def rstrip_def)
  then show ?thesis ..
qed

lemma rstrip_slash_id:
  assumes "d \<noteq> []" "CHR ''/'' \<notin> set d"
  shows "rstrip_slash (s @ d) = s @ d"
proof -
  from assms obtain c cs where rd: "rev d = c # cs" "c \<noteq> CHR ''/''"
    by (cases "rev d") (auto dest: arg_cong[where f = set])
  then have "dropWhile (\<lambda>c. c = CHR ''/'') (rev d @ rev s) = rev d @ rev s"
    by simp
  then show ?thesis by (simp add: rstrip_slash_def rstrip_def)
qed

lemma rstrip_new_top:
  "d \<noteq> [] \<Longrightarrow> CHR ''/'' \<notin> set d \<Longrightarrow> rstrip_slash (new_top tp d) = new_top tp d"
  using rstrip_slash_id[of d "rstrip_slash tp @ ''/''"] by (simp add: new_top_def)

lemma first_component:
  assumes "CHR ''/'' \<notin> set d" "r = [] \<or> hd r = CHR ''/''"
  shows "takeWhile (\<lambda>c. c \<noteq> CHR ''/'') (d @ r) = d"
proof (cases r)
  case Nil
  with assms(1) show ?thesis by auto
next
  case (Cons c cs)
  with assms have "c = CHR ''/''" by simp
  with Cons assms(1) show ?thesis by (auto simp: takeWhile_tail)
qed

lemma new_top_inj:
  assumes "new_top tp d1 @ r1 = new_top tp d2 @ r2"
    and "CHR ''/'' \<notin> set d1" "CHR ''/'' \<notin> set d2"
    and "r1 = [] \<or> hd r1 = CHR ''/''" "r2 = [] \<or> hd r2 = CHR ''/''"
  shows "d1 = d2"
proof -
  from assms(1) have "d1 @ r1 = d2 @ r2" by (simp add: new_top_def)
  then have "takeWhile (\<lambda>c. c \<noteq> CHR ''/'') (d1 @ r1) = takeWhile (\<lambda>c. c \<noteq> CHR ''/'') (d2 @ r2)"
    by simp
  then show ?thesis using assms(2-5) by (simp add: first_component)
qed

lemma top_not_below:
  assumes "d \<noteq> []" "CHR ''/'' \<notin> set d"
  shows "tp \<noteq> new_top tp d @ r"
proof
  assume eq: "tp = new_top tp d @ r"
  obtain k where k: "tp = rstrip_slash tp @ replicate k CHR ''/''"
    using rstrip_slash_decomp by blast
  from eq have "rstrip_slash tp @ replicate k CHR ''/'' = rstrip_slash tp @ ''/'' @ d @ r"
    using k by (simp add: new_top_def)
  then have "replicate k CHR ''/'' = ''/'' @ d @ r" by simp
  then have "set d \<subseteq> set (replicate k CHR ''/'')" by auto
  with assms show False by (cases d) auto
qed


lemma walk_dirs_list_listed:
  assumes IH: "\<And>tp items. walk_list fuel sftp tp = Some items \<Longrightarrow> \<forall>i \<in> set items. listed sftp i"
  shows "walk_dirs_list fuel sftp tp ds = Some items \<Longrightarrow> \<forall>i \<in> set items. listed sftp i"
proof (induction ds arbitrary: items)
  case Nil
  then show ?case by simp
next
  case (Cons d ds)
  from Cons.prems obtain a b where ab: "walk_list fuel sftp (new_top tp d) = Some a"
    "walk_dirs_list fuel sftp tp ds = Some b" "items = a @ b"
    by (auto simp: walk_dirs_list_Cons split: option.splits)
  from IH[OF ab(1)] Cons.IH[OF ab(2)] ab(3) show ?case by auto
qed

lemma walk_list_listed:
  "walk_list fuel sftp tp = Some items \<Longrightarrow> \<forall>i \<in> set items. listed sftp i"
proof (induction fuel arbitrary: tp items)
  case 0
  then show ?case by simp
next
  case (Suc fuel)
  show ?case
  proof (cases "sftp tp")
    case (Inl e)
    with Suc.prems show ?thesis by (simp add: walk_list_Suc)
  next
    case (Inr es)
    with Suc.prems obtain rest where rest: "walk_dirs_list fuel sftp tp (fst (classify es)) = Some rest"
      "items = (tp, classify es) # rest"
      by (auto simp: walk_list_Suc)
    from walk_dirs_list_listed[OF Suc.IH rest(1)] rest(2) Inr show ?thesis
      by (auto simp: listed_def)
  qed
qed

lemma walk_dirs_list_concat:
  "walk_dirs_list fuel sftp tp ds = Some rest \<longleftrightarrow>
     (\<exists>subs. map (\<lambda>d. walk_list fuel sftp (new_top tp d)) ds = map Some subs \<and> rest = concat subs)"
proof (induction ds arbitrary: rest)
  case Nil
  then show ?case by auto
next
  case (Cons d ds)
  show ?case
  proof
    assume "walk_dirs_list fuel sftp tp (d # ds) = Some rest"
    then obtain a b where ab: "walk_list fuel sftp (new_top tp d) = Some a"
      "walk_dirs_list fuel sftp tp ds = Some b" "rest = a @ b"
      by (auto simp: walk_dirs_list_Cons split: option.splits)
    from ab(2) Cons.IH[of b] obtain subs where
      "map (\<lambda>d. walk_list fuel sftp (new_top tp d)) ds = map Some subs" "b = concat subs"
      by blast
    with ab(1,3) have "map (\<lambda>d. walk_list fuel sftp (new_top tp d)) (d # ds) = map Some (a # subs) \<and>
        rest = concat (a # subs)"
      by simp
    then show "\<exists>subs. map (\<lambda>d. walk_list fuel sftp (new_top tp d)) (d # ds) = map Some subs \<and>
        rest = concat subs" by blast
  next
    assume "\<exists>subs. map (\<lambda>d. walk_list fuel sftp (new_top tp d)) (d # ds) = map Some subs \<and>
        rest = concat subs"
    then obtain subs where subs: "map (\<lambda>d. walk_list fuel sftp (new_top tp d)) (d # ds) = map Some subs"
      "rest = concat subs" by blast
    then obtain a subs' where s': "subs = a # subs'" by (cases subs) auto
    with subs have a: "walk_list fuel sftp (new_top tp d) = Some a"
      and m: "map (\<lambda>d. walk_list fuel sftp (new_top tp d)) ds = map Some subs'"
      by simp_all
    from m Cons.IH[of "concat subs'"] have "walk_dirs_list fuel sftp tp ds = Some (concat subs')"
      by blast
    with a subs(2) s' show "walk_dirs_list fuel sftp tp (d # ds) = Some rest"
      by (simp add: walk_dirs_list_Cons)
  qed
qed

lemma walk_dirs_list_terminates:
  assumes IH: "\<And>tp. depth tp < fuel \<Longrightarrow> \<exists>items. walk_list fuel sftp tp = Some items"
  shows "\<forall>d \<in> set ds. depth (new_top tp d) < fuel \<Longrightarrow> \<exists>items. walk_dirs_list fuel sftp tp ds = Some items"
proof (induction ds)
  case Nil
  then show ?case by simp
next
  case (Cons d ds)
  from Cons.prems IH[of "new_top tp d"] obtain a where "walk_list fuel sftp (new_top tp d) = Some a"
    by auto
  moreover from Cons obtain b where "walk_dirs_list fuel sftp tp ds = Some b" by auto
  ultimately show ?case by (simp add: walk_dirs_list_Cons)
qed

lemma walk_list_terminates:
  fixes depth :: "string \<Rightarrow> nat"
  assumes dec: "\<And>p es d. sftp p = Inr es \<Longrightarrow> d \<in> set (fst (classify es)) \<Longrightarrow>
      depth (new_top p d) < depth p"
  shows "depth tp < fuel \<Longrightarrow> \<exists>items. walk_list fuel sftp tp = Some items"
proof (induction fuel arbitrary: tp)
  case 0
  then show ?case by simp
next
  case (Suc fuel)
  show ?case
  proof (cases "sftp tp")
    case (Inl e)
    then show ?thesis by (simp add: walk_list_Suc)
  next
    case (Inr es)
    have "\<forall>d \<in> set (fst (classify es)). depth (new_top tp d) < fuel"
      using dec[OF Inr] Suc.prems by fastforce
    from walk_dirs_list_terminates[OF Suc.IH this] Inr show ?thesis
      by (auto simp: walk_list_Suc)
  qed
qed


lemma below_child:
  assumes d: "d \<noteq> []" "CHR ''/'' \<notin> set d"
    and p: "p = new_top tp d \<or> below (new_top tp d) ds' p"
  shows "\<exists>r. p = new_top tp d @ r \<and> (r = [] \<or> hd r = CHR ''/'')"
proof -
  from p show ?thesis
  proof
    assume "p = new_top tp d"
    then show ?thesis by simp
  next
    assume "below (new_top tp d) ds' p"
    then obtain d' r where "p = new_top (new_top tp d) d' @ r" by (auto simp: below_def)
    then have "p = new_top tp d @ (''/'' @ d' @ r)"
      using rstrip_new_top[OF d, of tp] by (simp add: new_top_def[of "new_top tp d"])
    then show ?thesis by (intro exI[of _ "''/'' @ d' @ r"]) simp
  qed
qed

lemma walk_dirs_list_paths:
  assumes IH: "\<And>tp items. walk_list fuel sftp tp = Some items \<Longrightarrow>
      distinct (map fst items) \<and>
      (\<forall>p \<in> fst ` set items. p = tp \<or> (\<exists>es. sftp tp = Inr es \<and> below tp (fst (classify es)) p))"
  shows "ok_names ds \<Longrightarrow> walk_dirs_list fuel sftp tp ds = Some items \<Longrightarrow>
      distinct (map fst items) \<and> (\<forall>p \<in> fst ` set items. below tp ds p)"
proof (induction ds arbitrary: items)
  case Nil
  then show ?case by simp
next
  case (Cons d ds)
  from Cons.prems(1) have d: "d \<noteq> []" "CHR ''/'' \<notin> set d" "d \<notin> set ds" and ok: "ok_names ds"
    by (auto simp: ok_names_def)
  from Cons.prems(2) obtain a b where ab: "walk_list fuel sftp (new_top tp d) = Some a"
    "walk_dirs_list fuel sftp tp ds = Some b" "items = a @ b"
    by (auto simp: walk_dirs_list_Cons split: option.splits)
  from IH[OF ab(1)] have da: "distinct (map fst a)"
    and pa: "\<And>p. p \<in> fst ` set a \<Longrightarrow> \<exists>r. p = new_top tp d @ r \<and> (r = [] \<or> hd r = CHR ''/'')"
    using below_child[OF d(1,2)] by blast+
  from Cons.IH[OF ok ab(2)] have db: "distinct (map fst b)"
    and pb: "\<And>p. p \<in> fst ` set b \<Longrightarrow> below tp ds p"
    by blast+
  have disj: "fst ` set a \<inter> fst ` set b = {}"
  proof (rule ccontr)
    assume "fst ` set a \<inter> fst ` set b \<noteq> {}"
    then obtain p where p: "p \<in> fst ` set a" "p \<in> fst ` set b" by blast
    from pa[OF p(1)] obtain r where r: "p = new_top tp d @ r" "r = [] \<or> hd r = CHR ''/''" by blast
    from pb[OF p(2)] obtain d2 r2 where r2: "d2 \<in> set ds" "p = new_top tp d2 @ r2"
      "r2 = [] \<or> hd r2 = CHR ''/''"
      by (auto simp: below_def)
    from ok r2(1) have "CHR ''/'' \<notin> set d2" by (simp add: ok_names_def)
    from new_top_inj[OF r(1)[unfolded r2(2), symmetric] d(2) this r(2) r2(3)] r2(1) d(3)
    show False by simp
  qed
  have "distinct (map fst items)"
    using da db disj ab(3) by simp
  moreover have "below tp (d # ds) p" if "p \<in> fst ` set items" for p
  proof -
    from that ab(3) consider "p \<in> fst ` set a" | "p \<in> fst ` set b" by auto
    then show ?thesis
    proof cases
      case 1
      from pa[OF this] show ?thesis by (auto simp: below_def)
    next
      case 2
      from pb[OF this] show ?thesis by (auto simp: below_def)
    qed
  qed
  ultimately show ?case by blast
qed

lemma walk_list_paths:
  assumes wf: "\<And>p es. sftp p = Inr es \<Longrightarrow> ok_names (fst (classify es))"
  shows "walk_list fuel sftp tp = Some items \<Longrightarrow>
      distinct (map fst items) \<and>
      (\<forall>p \<in> fst ` set items. p = tp \<or> (\<exists>es. sftp tp = Inr es \<and> below tp (fst (classify es)) p))"
proof (induction fuel arbitrary: tp items)
  case 0
  then show ?case by simp
next
  case (Suc fuel)
  show ?case
  proof (cases "sftp tp")
    case (Inl e)
    with Suc.prems show ?thesis by (simp add: walk_list_Suc)
  next
    case (Inr es)
    with Suc.prems obtain rest where rest: "walk_dirs_list fuel sftp tp (fst (classify es)) = Some rest"
      "items = (tp, classify es) # rest"
      by (auto simp: walk_list_Suc)
    from walk_dirs_list_paths[OF Suc.IH wf[OF Inr] rest(1)]
    have dr: "distinct (map fst rest)"
      and br: "\<And>p. p \<in> fst ` set rest \<Longrightarrow> below tp (fst (classify es)) p"
      by blast+
    have "tp \<notin> fst ` set rest"
    proof
      assume "tp \<in> fst ` set rest"
      from br[OF this] obtain d r where "d \<in> set (fst (classify es))" "tp = new_top tp d @ r"
        by (auto simp: below_def)
      with wf[OF Inr] top_not_below[of d tp r] show False by (auto simp: ok_names_def)
    qed
    with dr br rest(2) Inr show ?thesis by auto
  qed
qed


text \<open>
  Claim C4. On a remote tree whose listings name their directories distinctly, without
  \<open>/\<close> and not emptily, and whose directories that are not symbolic links nest to a finite
  depth (symbolic links are not constrained at all: they may point anywhere, also back up),
  the walk ends and yields its tuples depth first in pre-order: the tuple of the top
  directory, then the complete walks of its subdirectories in listing order. In every
  yielded tuple the directories and files are exactly the listed entries that are not
  symbolic links, split by their type bits, and no directory path is yielded twice.
\<close>

theorem sftp_walk_preorder:
  fixes depth :: "string \<Rightarrow> nat"
  assumes names: "\<forall>p es. sftp p = Inr es \<longrightarrow> ok_names (fst (classify es))"
    and finite_depth: "\<forall>p es d. sftp p = Inr es \<longrightarrow> d \<in> set (fst (classify es)) \<longrightarrow>
          depth (new_top p d) < depth p"
    and fuel: "depth top' \<le> fuel"
  shows "\<exists>items. walk_list (Suc fuel) sftp top' = Some items \<and>
      (\<forall>(root', dirs, files) \<in> set items. \<exists>es. sftp root' = Inr es \<and>
          dirs = map fst (filter (\<lambda>(name, mode). \<not> S_ISLNK mode \<and> S_ISDIR mode) es) \<and>
          files = map fst (filter (\<lambda>(name, mode). \<not> S_ISLNK mode \<and> \<not> S_ISDIR mode) es)) \<and>
      distinct (map fst items) \<and>
      (case sftp top' of
         Inl e \<Rightarrow> items = []
       | Inr es \<Rightarrow>
           (\<exists>subs. map (\<lambda>d. walk_list fuel sftp (new_top top' d)) (fst (classify es)) = map Some subs \<and>
                   items = (top', classify es) # concat subs))"
proof -
  from walk_list_terminates[of sftp depth top' "Suc fuel"] finite_depth fuel
  obtain items where items: "walk_list (Suc fuel) sftp top' = Some items"
    by (auto simp: less_Suc_eq_le)
  have 1: "\<forall>(root', dirs, files) \<in> set items. \<exists>es. sftp root' = Inr es \<and>
          dirs = map fst (filter (\<lambda>(name, mode). \<not> S_ISLNK mode \<and> S_ISDIR mode) es) \<and>
          files = map fst (filter (\<lambda>(name, mode). \<not> S_ISLNK mode \<and> \<not> S_ISDIR mode) es)"
  proof (clarify)
    fix root' dirs files
    assume "(root', dirs, files) \<in> set items"
    with walk_list_listed[OF items] obtain es where "sftp root' = Inr es" "(dirs, files) = classify es"
      by (auto simp: listed_def)
    then show "\<exists>es. sftp root' = Inr es \<and>
          dirs = map fst (filter (\<lambda>(name, mode). \<not> S_ISLNK mode \<and> S_ISDIR mode) es) \<and>
          files = map fst (filter (\<lambda>(name, mode). \<not> S_ISLNK mode \<and> \<not> S_ISDIR mode) es)"
      using classify_fst[of es] classify_snd[of es] by (intro exI[of _ es]) (metis fst_conv snd_conv)
  qed
  have 2: "distinct (map fst items)"
    using walk_list_paths[OF _ items] names by blast
  have 3: "case sftp top' of
         Inl e \<Rightarrow> items = []
       | Inr es \<Rightarrow>
           (\<exists>subs. map (\<lambda>d. walk_list fuel sftp (new_top top' d)) (fst (classify es)) = map Some subs \<and>
                   items = (top', classify es) # concat subs)"
  proof (cases "sftp top'")
    case (Inl e)
    with items show ?thesis by (simp add: walk_list_Suc)
  next
    case (Inr es)
    with items obtain rest where rest: "walk_dirs_list fuel sftp top' (fst (classify es)) = Some rest"
      "items = (top', classify es) # rest"
      by (auto simp: walk_list_Suc)
    from rest(1)[unfolded walk_dirs_list_concat] rest(2) Inr show ?thesis by auto
  qed
  from items 1 2 3 show ?thesis by blast
qed

lemma basename_new_top: "CHR ''/'' \<notin> set d \<Longrightarrow> basename (new_top p d) = d"
  using first_component[of "rev d" "CHR ''/'' # rev (rstrip_slash p)"]
  by (simp add: basename_def new_top_def)

lemma modes [simp]:
  "S_ISDIR MODE_DIR" "\<not> S_ISLNK MODE_DIR"
  "\<not> S_ISDIR MODE_REG" "\<not> S_ISLNK MODE_REG"
  "\<not> S_ISDIR MODE_LNK" "S_ISLNK MODE_LNK"
  by (simp_all add: S_ISDIR_def S_ISLNK_def S_IFMT_def MODE_DIR_def MODE_REG_def MODE_LNK_def)

lemma walk_cyc: "walk_list 2 sftp_cyc ''/r'' =
    Some [(''/r'', [''a''], [''f.bin'']), (''/r/a'', [], [''g.bin''])]"
  by code_simp

text \<open>
  Witness for C4: a tree in which \<open>/r/loop\<close> and \<open>/r/a/back\<close> are links back to \<open>/r\<close>.
\<close>

theorem sftp_walk_preorder_witness:
  "\<exists>items. walk_list 2 sftp_cyc ''/r'' = Some items \<and> distinct (map fst items) \<and>
      items = [(''/r'', [''a''], [''f.bin'']), (''/r/a'', [], [''g.bin''])] \<and>
      sftp_cyc ''/r/loop'' = sftp_cyc ''/r'' \<and> sftp_cyc ''/r/a/back'' = sftp_cyc ''/r''"
proof -
  have names: "\<forall>p es. sftp_cyc p = Inr es \<longrightarrow> ok_names (fst (classify es))"
    by (auto simp: sftp_cyc_def ok_names_def split: if_splits)
  have dec: "\<forall>p es d. sftp_cyc p = Inr es \<longrightarrow> d \<in> set (fst (classify es)) \<longrightarrow>
          depth_cyc (new_top p d) < depth_cyc p"
    by (auto simp: sftp_cyc_def depth_cyc_def basename_new_top split: if_splits)
  have fuel: "depth_cyc ''/r'' \<le> 1" by (simp add: depth_cyc_def)
  have links: "sftp_cyc ''/r/loop'' = sftp_cyc ''/r''" "sftp_cyc ''/r/a/back'' = sftp_cyc ''/r''"
    by (simp_all add: sftp_cyc_def basename_def)
  from sftp_walk_preorder[OF names dec fuel] links show ?thesis
    by (simp add: walk_cyc numeral_2_eq_2[symmetric])
qed

section \<open>Properties of \<open>search_remote\<close>\<close>

lemma search_files_inv:
  assumes "sftp root' = Inr es" "set files \<subseteq> set (snd (classify es))"
  shows "search_inv sftp q limit st \<Longrightarrow>
     (case search_files q limit root' files st of
        Inl st' \<Rightarrow> search_inv sftp q limit st'
      | Inr rs \<Rightarrow> search_post sftp q limit rs)"
  using assms(2)
proof (induction files arbitrary: st)
  case Nil
  then show ?case by (cases st) simp
next
  case (Cons fname files)
  obtain results count where st: "st = (results, count)" by (cases st)
  from Cons.prems(2) have sub: "set files \<subseteq> set (snd (classify es))"
    and "fname \<in> set (snd (classify es))" by auto
  then obtain mode where mode: "(fname, mode) \<in> set es" "\<not> S_ISLNK mode" "\<not> S_ISDIR mode"
    by (auto simp: classify_snd)
  show ?case
  proof (cases "sublist q (lower fname)")
    case False
    with Cons.IH[OF Cons.prems(1) sub] st show ?thesis by simp
  next
    case True
    let ?p = "rstrip_slash root' @ ''/'' @ fname"
    have h: "hit sftp q ?p"
      unfolding hit_def using assms(1) mode True by blast
    show ?thesis
    proof (cases "count + 1 \<ge> limit")
      case ge: True
      with Cons.prems(1) st h True show ?thesis
        by (auto simp: search_inv_def search_post_def Let_def)
    next
      case lt: False
      with Cons.prems(1) st h have "search_inv sftp q limit (results @ [?p], count + 1)"
        by (auto simp: search_inv_def)
      from Cons.IH[OF this sub] st True lt show ?thesis by (simp add: Let_def)
    qed
  qed
qed

lemma search_remote_post:
  assumes "search_remote fuel sftp base_dir query limit = Some results"
  shows "search_post sftp (lower (strip (or_empty query))) limit results"
proof (cases "lower (strip (or_empty query)) = []")
  case True
  with assms show ?thesis by (simp add: search_remote_def search_post_def)
next
  case False
  let ?q = "lower (strip (or_empty query))"
  from assms False obtain res where res: "sftp_walk fuel sftp base_dir (search_body ?q limit) ([], 0) = Some res"
    "results = (case res of Inl (rs, c) \<Rightarrow> rs | Inr rs \<Rightarrow> rs)"
    by (auto simp: search_remote_def Let_def split: option.splits sum.splits)
  have step: "\<And>tp es s. sftp tp = Inr es \<Longrightarrow> search_inv sftp ?q limit s \<Longrightarrow>
      (case search_body ?q limit (tp, classify es) s of
         Inl s' \<Rightarrow> search_inv sftp ?q limit s' | Inr r \<Rightarrow> search_post sftp ?q limit r)"
  proof -
    fix tp es s
    assume a: "sftp tp = Inr es" "search_inv sftp ?q limit s"
    obtain dirs files where cl: "classify es = (dirs, files)" by (cases "classify es")
    have "set files \<subseteq> set (snd (classify es))" using cl by simp
    from search_files_inv[OF a(1) this a(2)] cl
    show "case search_body ?q limit (tp, classify es) s of
         Inl s' \<Rightarrow> search_inv sftp ?q limit s' | Inr r \<Rightarrow> search_post sftp ?q limit r"
      by (simp add: search_body_def)
  qed
  have init: "search_inv sftp ?q limit ([], 0)" by (simp add: search_inv_def)
  from walk_invariant(1)[where I = "search_inv sftp ?q limit" and R = "search_post sftp ?q limit",
      OF step init res(1)]
  show ?thesis using res(2)
    by (cases res) (auto simp: search_inv_def search_post_def)
qed


lemma search_files_take:
  assumes "1 \<le> limit"
  shows "count = int (length results) \<Longrightarrow> count < limit \<Longrightarrow>
    search_files q limit root' files (results, count) =
      (let found = results @ map (\<lambda>fname. rstrip_slash root' @ ''/'' @ fname)
                              (filter (\<lambda>fname. sublist q (lower fname)) files)
       in if limit \<le> int (length found) then Inr (take (nat limit) found)
          else Inl (found, int (length found)))"
proof (induction files arbitrary: results count)
  case Nil
  then show ?case by simp
next
  case (Cons fname files)
  show ?case
  proof (cases "sublist q (lower fname)")
    case False
    with Cons show ?thesis by simp
  next
    case True
    let ?p = "rstrip_slash root' @ ''/'' @ fname"
    show ?thesis
    proof (cases "limit \<le> count + 1")
      case ge: True
      with Cons.prems have "nat limit = Suc (length results)" by simp
      with ge True Cons.prems show ?thesis by (simp add: Let_def)
    next
      case lt: False
      from Cons.IH[of "count + 1" "results @ [?p]"] Cons.prems lt
      have "search_files q limit root' files (results @ [?p], count + 1) =
          (let found = (results @ [?p]) @ map (\<lambda>fname. rstrip_slash root' @ ''/'' @ fname)
                              (filter (\<lambda>fname. sublist q (lower fname)) files)
           in if limit \<le> int (length found) then Inr (take (nat limit) found)
              else Inl (found, int (length found)))"
        by simp
      with True lt show ?thesis by (simp add: Let_def)
    qed
  qed
qed

lemma matches_Cons:
  "matches q ((root', dirs, files) # items) =
     map (\<lambda>fname. rstrip_slash root' @ ''/'' @ fname) (filter (\<lambda>fname. sublist q (lower fname)) files)
     @ matches q items"
  by (simp add: matches_def)

lemma run_search_take:
  assumes "1 \<le> limit"
  shows "count = int (length results) \<Longrightarrow> count < limit \<Longrightarrow>
    run (search_body q limit) items (results, count) =
      (let found = results @ matches q items
       in if limit \<le> int (length found) then Inr (take (nat limit) found)
          else Inl (found, int (length found)))"
proof (induction items arbitrary: results count)
  case Nil
  then show ?case by (simp add: matches_def)
next
  case (Cons item items)
  obtain root' dirs files where item: "item = (root', dirs, files)" by (cases item)
  let ?ms = "map (\<lambda>fname. rstrip_slash root' @ ''/'' @ fname)
               (filter (\<lambda>fname. sublist q (lower fname)) files)"
  note sf = search_files_take[OF assms Cons.prems, of q root' files]
  show ?case
  proof (cases "limit \<le> int (length (results @ ?ms))")
    case True
    then have "take (nat limit) (results @ ?ms @ matches q items) = take (nat limit) (results @ ?ms)"
      by (simp add: nat_le_iff)
    with True sf show ?thesis
      by (simp add: item search_body_def matches_Cons Let_def)
  next
    case False
    with sf have "search_body q limit item (results, count) = Inl (results @ ?ms, int (length (results @ ?ms)))"
      by (simp add: item search_body_def Let_def)
    moreover from False Cons.IH[of "int (length (results @ ?ms))" "results @ ?ms"]
    have "run (search_body q limit) items (results @ ?ms, int (length (results @ ?ms))) =
      (let found = (results @ ?ms) @ matches q items
       in if limit \<le> int (length found) then Inr (take (nat limit) found)
          else Inl (found, int (length found)))"
      by simp
    ultimately show ?thesis by (simp add: item matches_Cons Let_def)
  qed
qed

lemma search_remote_take:
  assumes "walk_list fuel sftp base_dir = Some items" "1 \<le> limit"
    "lower (strip (or_empty query)) \<noteq> []"
  shows "search_remote fuel sftp base_dir query limit =
     Some (take (nat limit) (matches (lower (strip (or_empty query))) items))"
proof -
  let ?q = "lower (strip (or_empty query))"
  have "sftp_walk fuel sftp base_dir (search_body ?q limit) ([], 0) =
      Some (run (search_body ?q limit) items ([], 0))"
    by (rule walk_list_fusion[OF assms(1)])
  also have "run (search_body ?q limit) items ([], 0) =
      (let found = [] @ matches ?q items
       in if limit \<le> int (length found) then Inr (take (nat limit) found)
          else Inl (found, int (length found)))"
    using assms(2) by (intro run_search_take) simp_all
  finally show ?thesis using assms(3)
    by (simp add: search_remote_def Let_def)
qed

lemma strip_blank:
  assumes "\<forall>c \<in> set s. isspace c"
  shows "strip s = []"
  using assms by (auto simp: strip_def rstrip_def dest: set_dropWhileD)

lemma search_remote_blank:
  "\<forall>c \<in> set (or_empty query). isspace c \<Longrightarrow> search_remote fuel sftp base_dir query limit = Some []"
  by (simp add: search_remote_def strip_blank lower_def)


text \<open>
  Claim C3, as the code has it. A query that is missing, empty or made of white space only
  returns the empty list, for every fuel, without listing anything. Every returned path is
  \<open>root.rstrip('/') + "/" + fname\<close> for a file entry \<open>fname\<close> (not a link, not a
  directory) of a listed directory \<open>root\<close>, and the lower-cased \<open>fname\<close> contains the
  stripped, lower-cased query. For a limit of at least 1 the number of results is at most
  the limit, and when the whole walk is finite the result is exactly the first \<open>limit\<close>
  matches in walk order.
\<close>

theorem search_remote_results:
  "((\<forall>c \<in> set (or_empty query). isspace c) \<longrightarrow>
      search_remote fuel sftp base_dir query limit = Some []) \<and>
   (search_remote fuel sftp base_dir query limit = Some results \<longrightarrow>
      (\<forall>p \<in> set results. \<exists>root' es fname mode.
          sftp root' = Inr es \<and> (fname, mode) \<in> set es \<and> \<not> S_ISLNK mode \<and> \<not> S_ISDIR mode \<and>
          p = rstrip_slash root' @ ''/'' @ fname \<and>
          sublist (lower (strip (or_empty query))) (lower fname)) \<and>
      (1 \<le> limit \<longrightarrow> int (length results) \<le> limit)) \<and>
   (walk_list fuel sftp base_dir = Some items \<and> 1 \<le> limit \<and>
    lower (strip (or_empty query)) \<noteq> [] \<longrightarrow>
      search_remote fuel sftp base_dir query limit =
        Some (take (nat limit) (matches (lower (strip (or_empty query))) items)))"
  using search_remote_blank[of query fuel sftp base_dir limit]
    search_remote_post[of fuel sftp base_dir query limit results]
    search_remote_take[of fuel sftp base_dir items limit query]
  unfolding search_post_def hit_def by blast

lemma search_deep:
  "search_remote 1 sftp_deep ''/roms/ps1'' (Some ''BIN'') 1 = Some [''/roms/ps1/a.bin'']"
  by code_simp

text \<open>
  Witness for C3: the query \<open>bin\<close> on \<open>a.bin\<close>, \<open>b.iso\<close>, \<open>B2.bin\<close>; a blank query; and a
  search with limit 1 that returns from a tree of unbounded depth, whose full walk runs
  out of fuel.
\<close>

theorem search_remote_results_witness:
  "search_remote 1 sftp_ps1 ''/roms/ps1'' (Some ''bin'') 2000
     = Some [''/roms/ps1/a.bin'', ''/roms/ps1/B2.bin''] \<and>
   walk_list 1 sftp_ps1 ''/roms/ps1'' = Some [(''/roms/ps1'', [], [''a.bin'', ''b.iso'', ''B2.bin''])] \<and>
   matches ''bin'' [(''/roms/ps1'', [], [''a.bin'', ''b.iso'', ''B2.bin''])]
     = [''/roms/ps1/a.bin'', ''/roms/ps1/B2.bin''] \<and>
   search_remote 0 sftp_ps1 ''/roms/ps1'' (Some ''  '') 2000 = Some [] \<and>
   search_remote 1 sftp_deep ''/roms/ps1'' (Some ''BIN'') 1 = Some [''/roms/ps1/a.bin''] \<and>
   walk_list 1 sftp_deep ''/roms/ps1'' = None"
proof -
  have w: "walk_list 1 sftp_ps1 ''/roms/ps1'' = Some [(''/roms/ps1'', [], [''a.bin'', ''b.iso'', ''B2.bin''])]"
    by code_simp
  have q: "lower (strip (or_empty (Some ''bin''))) = ''bin''" by code_simp
  have b: "\<forall>c \<in> set (or_empty (Some ''  '')). isspace c" by code_simp
  have d: "walk_list 1 sftp_deep ''/roms/ps1'' = None" by code_simp
  note t = search_remote_results[of "Some ''bin''" 1 sftp_ps1 "''/roms/ps1''" 2000
      "[''/roms/ps1/a.bin'', ''/roms/ps1/B2.bin'']" "[(''/roms/ps1'', [], [''a.bin'', ''b.iso'', ''B2.bin''])]"]
  note t2 = search_remote_results[of "Some ''  ''" 0 sftp_ps1 "''/roms/ps1''" 2000 "[]" "[]"]
  have m: "matches ''bin'' [(''/roms/ps1'', [], [''a.bin'', ''b.iso'', ''B2.bin''])]
     = [''/roms/ps1/a.bin'', ''/roms/ps1/B2.bin'']"
    by code_simp
  from t w q have "search_remote 1 sftp_ps1 ''/roms/ps1'' (Some ''bin'') 2000
     = Some (take (nat 2000) (matches ''bin'' [(''/roms/ps1'', [], [''a.bin'', ''b.iso'', ''B2.bin''])]))"
    by simp
  with m have s: "search_remote 1 sftp_ps1 ''/roms/ps1'' (Some ''bin'') 2000
     = Some [''/roms/ps1/a.bin'', ''/roms/ps1/B2.bin'']"
    by simp
  from t2 b have e: "search_remote 0 sftp_ps1 ''/roms/ps1'' (Some ''  '') 2000 = Some []"
    by blast
  from s w m e search_deep d show ?thesis by blast
qed

text \<open>
  C3 as stated fails in two ways: with limit 0 one result is returned, and a query with a
  trailing blank returns file names that do not contain the query as given.
\<close>

theorem search_remote_results_counterexample:
  "search_remote 1 sftp_ps1 ''/roms/ps1'' (Some ''bin'') 0 = Some [''/roms/ps1/a.bin''] \<and>
   search_remote 1 sftp_ps1 ''/roms/ps1'' (Some ''bin '') 2000
     = Some [''/roms/ps1/a.bin'', ''/roms/ps1/B2.bin''] \<and>
   \<not> sublist (lower ''bin '') (lower ''a.bin'')"
  by code_simp

section \<open>Properties of the orchestrator\<close>

lemma session_notify_fields [simp]:
  "started (notify m t s) = started s"
  "selected_results (notify m t s) = selected_results s"
  "multi_select_enabled (notify m t s) = multi_select_enabled s"
  by (simp_all add: notify_def)

lemma numbered_Nil [simp]: "numbered l2r tot i [] = []"
  by (simp add: numbered_def)

lemma numbered_Cons:
  "numbered l2r tot i (x # xs) =
     \<lparr>task_label = x, task_remote_path = the (l2r x), task_index = Some (Suc i), task_total = Some tot\<rparr>
     # numbered l2r tot (Suc i) xs"
  by (simp add: numbered_def)

lemma numbered_labels: "map task_label (numbered l2r tot i xs) = xs"
  by (induction xs arbitrary: i) (simp_all add: numbered_Cons)

lemma batch_loop_started:
  assumes "\<forall>l \<in> set ls. l \<noteq> ''< Back'' \<and> (\<exists>p. l2r l = Some p \<and> p \<noteq> []) \<and>
             (\<forall>e. env l \<noteq> Raised_after e)"
  shows "started (batch_loop env l2r tot ls i s) =
     started s @ numbered l2r tot i (until_cancel (cancelled env) (filter (did_run env) ls))"
  using assms
proof (induction ls arbitrary: i s)
  case Nil
  then show ?case by simp
next
  case (Cons l ls)
  from Cons.prems obtain p where l: "l \<noteq> ''< Back''" "l2r l = Some p" "p \<noteq> []"
    "\<forall>e. env l \<noteq> Raised_after e"
    by auto
  from Cons.prems have rest: "\<forall>l \<in> set ls. l \<noteq> ''< Back'' \<and> (\<exists>p. l2r l = Some p \<and> p \<noteq> []) \<and>
             (\<forall>e. env l \<noteq> Raised_after e)"
    by simp
  note IH = Cons.IH[OF rest]
  show ?case
  proof (cases "env l")
    case (Raised_before e)
    with l IH show ?thesis by (simp add: did_run_def)
  next
    case (Raised_after e)
    with l show ?thesis by simp
  next
    case (Ran stop)
    with l IH show ?thesis
      by (cases stop) (simp_all add: did_run_def cancelled_def numbered_Cons Let_def)
  qed
qed

lemma batch_rel_refl: "batch_rel s s"
  by (simp add: batch_rel_def)

lemma batch_rel_notify: "batch_rel (notify m t s) s' \<Longrightarrow> batch_rel s s'"
  by (simp add: batch_rel_def notify_def)

lemma batch_rel_break:
  "batch_rel s (s\<lparr>started := started s @ [t], stop_download := False\<rparr>)"
  by (simp add: batch_rel_def)

lemma batch_rel_ran:
  assumes "batch_rel (s\<lparr>started := started s @ [t], stop_download := False\<rparr>) s'"
  shows "batch_rel s s'"
proof -
  from assms have "\<not> stop_download s'" by (auto simp: batch_rel_def)
  moreover from assms have "\<exists>new. new \<noteq> [] \<and> started s' = started s @ new"
    by (auto simp: batch_rel_def)
  ultimately show ?thesis using assms by (simp add: batch_rel_def)
qed

lemma batch_loop_rel: "batch_rel s (batch_loop env l2r tot ls i s)"
proof (induction ls arbitrary: i s)
  case Nil
  show ?case by (simp add: batch_rel_refl)
next
  case (Cons lbl rest)
  show ?case
  proof (cases "lbl = ''< Back''")
    case True
    with Cons show ?thesis by simp
  next
    case nb: False
    show ?thesis
    proof (cases "l2r lbl")
      case None
      with nb batch_rel_notify[OF Cons] show ?thesis by simp
    next
      case (Some path)
      show ?thesis
      proof (cases "path = []")
        case True
        with nb Some batch_rel_notify[OF Cons] show ?thesis by simp
      next
        case ne: False
        show ?thesis
        proof (cases "env lbl")
          case (Raised_before e)
          with nb Some ne batch_rel_notify[OF Cons] show ?thesis by simp
        next
          case (Raised_after e)
          with nb Some ne batch_rel_notify[OF Cons] show ?thesis by simp
        next
          case (Ran stop)
          show ?thesis
          proof (cases stop)
            case True
            with nb Some ne Ran batch_rel_break show ?thesis by simp
          next
            case False
            with nb Some ne Ran batch_rel_ran[OF Cons] show ?thesis by (simp add: Let_def)
          qed
        qed
      qed
    qed
  qed
qed


lemma until_cancel_none: "\<forall>x \<in> set xs. \<not> c x \<Longrightarrow> until_cancel c xs = xs"
  by (induction xs) auto

text \<open>
  Claim C5, as the code has it. For a non-empty selection drawn from a display list with
  pairwise distinct labels (each mapped to a remote path, none of them the \<open>< Back\<close>
  entry, thread creation not failing), the batch starts downloads for the selected labels
  in the order of the display list, leaving out those whose \<open>os.makedirs\<close> failed, and
  stops after the first download on which cancellation is observed. The downloads started
  are numbered 1, 2, ... and each is given the number of selected labels as total. The
  selected labels in display order are exactly the selection, as many as the total; when
  every download runs without cancellation, they are exactly the labels processed.
\<close>

theorem run_batch_order:
  assumes "selected_results s \<noteq> {}"
    and "distinct display_items"
    and "selected_results s \<subseteq> set display_items"
    and "''< Back'' \<notin> selected_results s"
    and "\<forall>l \<in> selected_results s. (\<exists>p. label_to_remote l = Some p \<and> p \<noteq> []) \<and>
            (\<forall>e. env l \<noteq> Raised_after e)"
  shows "started (run_batch env display_items label_to_remote s) =
           started s @ numbered label_to_remote (card (selected_results s)) 0
             (until_cancel (cancelled env)
                (filter (did_run env) (filter (\<lambda>l. l \<in> selected_results s) display_items))) \<and>
         set (filter (\<lambda>l. l \<in> selected_results s) display_items) = selected_results s \<and>
         length (filter (\<lambda>l. l \<in> selected_results s) display_items) = card (selected_results s) \<and>
         ((\<forall>l \<in> selected_results s. env l = Ran False) \<longrightarrow>
            map task_label (drop (length (started s)) (started (run_batch env display_items label_to_remote s)))
              = filter (\<lambda>l. l \<in> selected_results s) display_items)"
proof -
  let ?sel = "filter (\<lambda>l. l \<in> selected_results s) display_items"
  have ls: "\<forall>l \<in> set ?sel. l \<noteq> ''< Back'' \<and> (\<exists>p. label_to_remote l = Some p \<and> p \<noteq> []) \<and>
             (\<forall>e. env l \<noteq> Raised_after e)"
    using assms(4,5) by auto
  have 1: "started (run_batch env display_items label_to_remote s) =
           started s @ numbered label_to_remote (card (selected_results s)) 0
             (until_cancel (cancelled env) (filter (did_run env) ?sel))"
    using assms(1) batch_loop_started[OF ls]
    by (simp add: run_batch_def Let_def)
  have 2: "set ?sel = selected_results s"
    using assms(3) by auto
  have "distinct ?sel" using assms(2) by simp
  with 2 have 3: "length ?sel = card (selected_results s)"
    using distinct_card by fastforce
  have 4: "map task_label (drop (length (started s)) (started (run_batch env display_items label_to_remote s)))
              = ?sel" if all: "\<forall>l \<in> selected_results s. env l = Ran False"
  proof -
    from all have "filter (did_run env) ?sel = ?sel"
      by (intro filter_True) (auto simp: did_run_def)
    moreover from all have "until_cancel (cancelled env) ?sel = ?sel"
      by (intro until_cancel_none) (auto simp: cancelled_def)
    ultimately show ?thesis using 1 by (simp add: numbered_labels)
  qed
  from 1 2 3 4 show ?thesis by blast
qed

lemma five_remote_eval:
  "five_remote ''r2'' = Some ''/roms/ps1/r2''" "five_remote ''r4'' = Some ''/roms/ps1/r4''"
  "five_remote ''r1'' = Some ''/roms/ps1/r1''"
  by code_simp+

text \<open>
  Witness for C5: \<open>r4\<close> was marked before \<open>r2\<close>; the batch downloads \<open>r2\<close> as 1/2 and then
  \<open>r4\<close> as 2/2.
\<close>

theorem run_batch_order_witness:
  "started (run_batch all_run five_items five_remote session_marked) =
     [\<lparr>task_label = ''r2'', task_remote_path = ''/roms/ps1/r2'', task_index = Some 1, task_total = Some 2\<rparr>,
      \<lparr>task_label = ''r4'', task_remote_path = ''/roms/ps1/r4'', task_index = Some 2, task_total = Some 2\<rparr>]"
proof -
  have sel: "selected_results session_marked = {''r4'', ''r2''}" "started session_marked = []"
    by (simp_all add: session_marked_def session0_def)
  have h: "selected_results session_marked \<noteq> {}" "distinct five_items"
    "selected_results session_marked \<subseteq> set five_items"
    "''< Back'' \<notin> selected_results session_marked"
    "\<forall>l \<in> selected_results session_marked. (\<exists>p. five_remote l = Some p \<and> p \<noteq> []) \<and>
            (\<forall>e. all_run l \<noteq> Raised_after e)"
    by (simp_all add: sel five_items_def five_remote_eval all_run_def)
  have e: "numbered five_remote (card (selected_results session_marked)) 0
             (until_cancel (cancelled all_run)
                (filter (did_run all_run)
                   (filter (\<lambda>l. l \<in> selected_results session_marked) five_items))) =
     [\<lparr>task_label = ''r2'', task_remote_path = ''/roms/ps1/r2'', task_index = Some 1, task_total = Some 2\<rparr>,
      \<lparr>task_label = ''r4'', task_remote_path = ''/roms/ps1/r4'', task_index = Some 2, task_total = Some 2\<rparr>]"
    by code_simp
  from run_batch_order[OF h, THEN conjunct1] show ?thesis
    unfolding e by (simp add: sel)
qed

text \<open>
  C5 as stated fails when the user cancels: with \<open>r2\<close> and \<open>r4\<close> selected and the download
  of \<open>r2\<close> cancelled, \<open>r4\<close> is never processed.
\<close>

theorem run_batch_order_counterexample:
  "map task_label (started (run_batch cancel_r2 five_items five_remote session_marked)) = [''r2''] \<and>
   selected_results session_marked = {''r4'', ''r2''}"
  by code_simp

text \<open>
  Claim C6, as the code has it. After a batch run the selection is empty and the
  multi-select flag is off, whatever happened. The cancel flag is unset if at least one
  download was started; if none was started it still has the value it had before the batch.
\<close>

theorem run_batch_ends_cleared:
  assumes "selected_results s \<noteq> {}"
  shows "selected_results (run_batch env display_items label_to_remote s) = {} \<and>
         \<not> multi_select_enabled (run_batch env display_items label_to_remote s) \<and>
         (if started (run_batch env display_items label_to_remote s) = started s
          then stop_download (run_batch env display_items label_to_remote s) = stop_download s
          else \<not> stop_download (run_batch env display_items label_to_remote s))"
proof -
  let ?s1 = "batch_loop env label_to_remote (card (selected_results s))
      (filter (\<lambda>lbl. lbl \<in> selected_results s) display_items) 0 s"
  have r: "batch_rel s ?s1" by (rule batch_loop_rel)
  have "started (run_batch env display_items label_to_remote s) = started ?s1"
    "stop_download (run_batch env display_items label_to_remote s) = stop_download ?s1"
    "selected_results (run_batch env display_items label_to_remote s) = {}"
    "\<not> multi_select_enabled (run_batch env display_items label_to_remote s)"
    using assms by (simp_all add: run_batch_def Let_def notify_def)
  with r show ?thesis by (auto simp: batch_rel_def)
qed

text \<open>Witness for C6: the batch that is aborted by a cancellation on \<open>r2\<close>.\<close>

theorem run_batch_ends_cleared_witness:
  "selected_results (run_batch cancel_r2 five_items five_remote session_marked) = {} \<and>
   \<not> multi_select_enabled (run_batch cancel_r2 five_items five_remote session_marked) \<and>
   \<not> stop_download (run_batch cancel_r2 five_items five_remote session_marked) \<and>
   started (run_batch cancel_r2 five_items five_remote session_marked) \<noteq> started session_marked"
proof -
  have ne: "selected_results session_marked \<noteq> {}"
    by (simp add: session_marked_def)
  have st: "started (run_batch cancel_r2 five_items five_remote session_marked) \<noteq> started session_marked"
    by code_simp
  from run_batch_ends_cleared[OF ne, of cancel_r2 five_items five_remote] st show ?thesis
    by simp
qed

text \<open>
  C6 as stated fails for the cancel flag: starting from a session at rest, a single
  download is cancelled (nothing on that path resets the flag), then a batch is run in
  which \<open>os.makedirs\<close> fails for every selected label. No worker starts, and the flag is
  still set when the batch has ended.
\<close>

theorem run_batch_ends_cleared_counterexample:
  "stop_download session0 = False \<and>
   stop_download (run_batch no_dirs five_items five_remote session_after_cancel) = True \<and>
   selected_results session_after_cancel = {''r4'', ''r2''}"
  by code_simp

text \<open>
  Claim C7 at a failing input. Searching \<open>f\<close> on the platform \<open>a\<close> finds \<open>xf.bin\<close> and
  \<open>x/roms/a/f.bin\<close>. \<open>str.replace\<close> removes the text \<open>/roms/a/\<close> from the second path twice,
  so both results get the label \<open>xf.bin\<close>, and the dictionary maps that label to the second
  path only.
\<close>

theorem build_display_duplicate_labels:
  "search_remote 4 sftp_dup ''/roms/a'' (Some ''f'') 2000
     = Some [''/roms/a/xf.bin'', ''/roms/a/x/roms/a/f.bin''] \<and>
   fst (build_display ''/roms/a'' [''/roms/a/xf.bin'', ''/roms/a/x/roms/a/f.bin''])
     = [''xf.bin'', ''xf.bin'', ''< Back''] \<and>
   snd (build_display ''/roms/a'' [''/roms/a/xf.bin'', ''/roms/a/x/roms/a/f.bin'']) ''xf.bin''
     = Some ''/roms/a/x/roms/a/f.bin''"
  by code_simp

section \<open>Properties of the notification list and of the threads\<close>

lemma remove_notification_set:
  "set (notifications (remove_notification i b)) = {n \<in> set (notifications b). nid n \<noteq> i}"
  by (auto simp: remove_notification_def)

lemma fold_remove_notifications:
  "notifications (fold (\<lambda>(due, i) b'. if due \<le> now then remove_notification i b' else b') ts b)
     = filter (\<lambda>n. \<forall>(due, i) \<in> set ts. nid n = i \<longrightarrow> \<not> due \<le> now) (notifications b)"
proof (induction ts arbitrary: b)
  case Nil
  then show ?case by simp
next
  case (Cons t ts)
  obtain due i where t: "t = (due, i)" by (cases t)
  show ?case
    by (auto simp: t Cons.IH remove_notification_def intro!: filter_cong)
qed

lemma run_timers_notifications:
  "notifications (run_timers now b)
     = filter (\<lambda>n. \<forall>(due, i) \<in> set (timers b). nid n = i \<longrightarrow> \<not> due \<le> now) (notifications b)"
  by (simp add: run_timers_def fold_remove_notifications)

text \<open>
  Claim C8, as the code has it. At a render, a notification is drawn if and only if it is
  still in the list and the time since its creation is at most its lifetime; after the
  pruning that ends the frame no notification older than its lifetime is left. A
  notification is in the list at a given time only while its timer has not run, and
  \<open>show_notification\<close> gives every notification the lifetime 10 and a timer that runs
  \<open>duration\<close> after its creation.
\<close>

theorem draw_notifications_present:
  "(n \<in> set (fst (draw_notifications now now' b)) \<longleftrightarrow>
      n \<in> set (notifications b) \<and> now - created_at n \<le> lifetime n) \<and>
   (\<forall>m \<in> set (notifications (snd (draw_notifications now now' b))). now' - created_at m \<le> lifetime m) \<and>
   (n \<in> set (notifications (run_timers now b)) \<longleftrightarrow>
      n \<in> set (notifications b) \<and> (\<forall>(due, i) \<in> set (timers b). nid n = i \<longrightarrow> now < due)) \<and>
   lifetime (last (notifications (show_notification now msg t duration b))) = 10 \<and>
   created_at (last (notifications (show_notification now msg t duration b))) = now \<and>
   last (timers (show_notification now msg t duration b))
     = (now + duration, nid (last (notifications (show_notification now msg t duration b))))"
  by (auto simp: draw_notifications_def Let_def is_expired_def run_timers_notifications
      show_notification_def Notification_def)


lemmas bus_eval = draw_notifications_def Let_def is_expired_def run_timers_def
  remove_notification_def show_notification_def Notification_def bus0_def

text \<open>Witness for C8: a notification shown at time 0 is drawn at time 2.\<close>

theorem draw_notifications_present_witness:
  "Notification 0 ''Download complete: a.bin'' Success 0
     \<in> set (fst (draw_notifications 2 2
                (run_timers 2 (show_notification 0 ''Download complete: a.bin'' Success 3 bus0))))"
proof -
  let ?n = "Notification 0 ''Download complete: a.bin'' Success 0"
  let ?b = "run_timers 2 (show_notification 0 ''Download complete: a.bin'' Success 3 bus0)"
  have "?n \<in> set (notifications ?b)" "2 - created_at ?n \<le> lifetime ?n"
    by (simp_all add: bus_eval)
  with draw_notifications_present[of ?n 2 2 ?b] show ?thesis by blast
qed

text \<open>
  C8 as stated fails once the timer has run: a notification created at time 0 with
  lifetime 10 is not drawn at time 5, its timer having removed it at time 3.
\<close>

theorem draw_notifications_present_counterexample:
  "fst (draw_notifications 5 5
          (run_timers 5 (show_notification 0 ''Download complete: a.bin'' Success 3 bus0))) = [] \<and>
   map created_at (notifications (show_notification 0 ''Download complete: a.bin'' Success 3 bus0)) = [0] \<and>
   map lifetime (notifications (show_notification 0 ''Download complete: a.bin'' Success 3 bus0)) = [10]"
  by (simp add: bus_eval)

text \<open>
  Claim C9 at a failing run. A download is started and its worker begins; the user cancels,
  \<open>download_screen\<close> returns at once and \<open>t.join(timeout=0.1)\<close> returns while the worker is
  still inside a block read; the user starts another download, whose worker begins and
  clears the flag. Two workers are then running, and the first will never see the
  cancellation.
\<close>

theorem two_workers_reachable:
  "reachable two_workers \<and> active two_workers = 2 \<and> \<not> stop_download two_workers"
proof -
  let ?s1 = "sys0\<lparr>workers := [Created], foreground := Screen\<rparr>"
  let ?s2 = "sys0\<lparr>downloading := True, workers := [Reading], foreground := Screen\<rparr>"
  let ?s3 = "sys0\<lparr>downloading := True, stop_download := True, workers := [Reading], foreground := Join\<rparr>"
  let ?s4 = "sys0\<lparr>downloading := True, stop_download := True, workers := [Reading], foreground := Menu\<rparr>"
  let ?s5 = "sys0\<lparr>downloading := True, stop_download := True, workers := [Reading, Created],
      foreground := Screen\<rparr>"
  have "step sys0 ?s1"
    using step.start[of sys0] by (simp add: sys0_def)
  then have r1: "reachable ?s1" by (rule reachable.later[OF reachable.init])
  have "step ?s1 ?s2"
    using step.enter[of 0 ?s1] by (simp add: sys0_def download_file_begin_def)
  with r1 have r2: "reachable ?s2" by (rule reachable.later)
  have "step ?s2 ?s3"
    using step.screen_cancel[of ?s2] by (simp add: sys0_def)
  with r2 have r3: "reachable ?s3" by (rule reachable.later)
  have "step ?s3 ?s4"
    using step.join[of ?s3] by (simp add: sys0_def)
  with r3 have r4: "reachable ?s4" by (rule reachable.later)
  have "step ?s4 ?s5"
    using step.start[of ?s4] by (simp add: sys0_def)
  with r4 have r5: "reachable ?s5" by (rule reachable.later)
  have "step ?s5 two_workers"
    using step.enter[of 1 ?s5] by (simp add: sys0_def download_file_begin_def two_workers_def)
  with r5 have "reachable two_workers" by (rule reachable.later)
  then show ?thesis by (simp add: two_workers_def active_def)
qed

end
